theory Spec2Isabelle
  imports Main "HOL-Library.Multiset"
begin

unbundle bit_operations_syntax

section \<open>JavaScript 32-bit integer operators\<close>

text \<open>
  The bitwise operators of the source convert their operands to 32-bit integers first.
  Numbers are modelled as \<open>int\<close>; the conversions are written out.
\<close>

definition toInt32 :: "int \<Rightarrow> int" where
  "toInt32 x = signed_take_bit 31 x"

definition toUint32 :: "int \<Rightarrow> int" where
  "toUint32 x = take_bit 32 x"

text \<open>\<open>a ^ b\<close>\<close>
definition js_xor :: "int \<Rightarrow> int \<Rightarrow> int" where
  "js_xor a b = toInt32 a XOR toInt32 b"

text \<open>\<open>a & b\<close>\<close>
definition js_and :: "int \<Rightarrow> int \<Rightarrow> int" where
  "js_and a b = toInt32 a AND toInt32 b"

text \<open>\<open>a << n\<close>: the shift count is taken modulo 32, the result is a signed 32-bit value.\<close>
definition js_shl :: "int \<Rightarrow> nat \<Rightarrow> int" where
  "js_shl a n = toInt32 (push_bit (n mod 32) (toInt32 a))"

text \<open>\<open>a >>> n\<close>: unsigned shift right.\<close>
definition js_ushr :: "int \<Rightarrow> nat \<Rightarrow> int" where
  "js_ushr a n = drop_bit (n mod 32) (toUint32 a)"

section \<open>Set validator (shared/src/game/validation.ts)\<close>

type_synonym Card = int

definition MIN_SET_SIZE :: nat where
  "MIN_SET_SIZE = 3"

text \<open>\<open>cards.reduce((acc, card) => acc ^ card, 0) === 0\<close>, after the length check.\<close>
definition isValidSet :: "Card list \<Rightarrow> bool" where
  "isValidSet cards =
     (if length cards < MIN_SET_SIZE then False
      else (let xorResult = foldl (\<lambda>acc card. js_xor acc card) 0 cards
            in xorResult = 0))"

text \<open>\<open>countBits\<close>: \<open>while (n) { count += n & 1; n >>>= 1; }\<close>\<close>
function countBits_loop :: "int \<Rightarrow> int \<Rightarrow> int" where
  "countBits_loop n cnt =
     (if n \<noteq> 0 then countBits_loop (js_ushr n 1) (cnt + js_and n 1) else cnt)"
  by pat_completeness auto
termination
proof (relation "measure (\<lambda>(n, cnt). if n < 0 then 2 ^ 32 else nat n)")
  show "wf (measure (\<lambda>(n::int, cnt::int). if n < 0 then 2 ^ 32 else nat n))"
    by simp
next
  fix n cnt :: int
  assume n: "n \<noteq> 0"
  define t where "t = take_bit 32 n"
  have t0: "0 \<le> t" and t32: "t < 2 ^ 32"
    using take_bit_int_less_exp [of 32 n] by (simp_all add: t_def)
  have sh: "js_ushr n 1 = t div 2"
    by (simp add: js_ushr_def toUint32_def drop_bit_eq_div t_def)
  have nonneg: "0 \<le> js_ushr n 1" and lt32: "js_ushr n 1 < 2 ^ 32"
    using t0 t32 unfolding sh by simp_all
  show "((js_ushr n 1, cnt + js_and n 1), (n, cnt))
          \<in> measure (\<lambda>(n, cnt). if n < 0 then 2 ^ 32 else nat n)"
  proof (cases "n < 0")
    case True
    with nonneg lt32 show ?thesis by (simp add: nat_less_iff)
  next
    case False
    with n have pos: "0 < n" by simp
    have "t \<le> n" using pos by (simp add: t_def take_bit_int_less_eq_self_iff)
    then have "js_ushr n 1 < n" using pos t0 unfolding sh by arith
    then show ?thesis using False nonneg by simp
  qed
qed

definition countBits :: "int \<Rightarrow> int" where
  "countBits n = countBits_loop n 0"

text \<open>
  The inner loop of \<open>hasValidSet\<close>:
  \<open>for (i = 0; i < n; i++) if (mask & (1 << i)) xorResult ^= cards[i]\<close>.
\<close>
definition subsetXor :: "Card list \<Rightarrow> int \<Rightarrow> int" where
  "subsetXor cards msk =
     foldl (\<lambda>xorResult i. if js_and msk (js_shl 1 i) \<noteq> 0
                           then js_xor xorResult (cards ! i) else xorResult)
           0 [0..<length cards]"

text \<open>The outer loop: \<open>for (mask = 7; mask < (1 << n); mask++)\<close>.\<close>
function hasValidSet_loop :: "Card list \<Rightarrow> int \<Rightarrow> bool" where
  "hasValidSet_loop cards msk =
     (if msk < js_shl 1 (length cards) then
        (if countBits msk < int MIN_SET_SIZE then hasValidSet_loop cards (msk + 1)
         else if subsetXor cards msk = 0 then True
         else hasValidSet_loop cards (msk + 1))
      else False)"
  by pat_completeness auto
termination
  by (relation "measure (\<lambda>(cards, msk). nat (js_shl 1 (length cards) - msk))") auto

definition hasValidSet :: "Card list \<Rightarrow> bool" where
  "hasValidSet cards =
     (if length cards < MIN_SET_SIZE then False else hasValidSet_loop cards 7)"

declare countBits_loop.simps [simp del]
declare hasValidSet_loop.simps [simp del]

section \<open>Data model (shared/src/types/card.ts, shared/src/types/game.ts)\<close>

type_synonym CardId = string
type_synonym PlayerId = string

text \<open>\<open>CardInstance = {id, value}\<close>; the fields are prefixed because \<open>id\<close> is a HOL constant.\<close>
record CardInstance =
  card_id :: CardId
  card_value :: Card

definition DECK_SIZE :: nat where
  "DECK_SIZE = 63"

definition ACTIVE_CARD_COUNT :: nat where
  "ACTIVE_CARD_COUNT = 7"

record Player =
  player_id :: PlayerId
  name :: string
  playerNumber :: int
  color :: string
  claimedCards :: "CardInstance list"
  selectedCardIds :: "CardId list"
  score :: int
  isConnected :: bool
  isReady :: bool

datatype SetFoundBehavior = immediate | click

datatype ScoringMode = Cards | Sets

record TimerConfig =
  durationMs :: int

text \<open>
  \<open>SinglePlayerSettings | MultiplayerSettings\<close>: \<open>scoringMode\<close> is \<open>None\<close> on
  single-player settings, which do not have the field.
\<close>
record Settings =
  colorsEnabled :: bool
  binaryMode :: bool
  turnTimer :: "TimerConfig option"
  gameTimer :: "TimerConfig option"
  setFoundBehavior :: SetFoundBehavior
  infiniteDeck :: bool
  scoringMode :: "ScoringMode option"

definition DEFAULT_SINGLE_PLAYER_SETTINGS :: Settings where
  "DEFAULT_SINGLE_PLAYER_SETTINGS =
     \<lparr>colorsEnabled = True, binaryMode = False, turnTimer = None, gameTimer = None,
      setFoundBehavior = immediate, infiniteDeck = False, scoringMode = None\<rparr>"

definition DEFAULT_MULTIPLAYER_SETTINGS :: Settings where
  "DEFAULT_MULTIPLAYER_SETTINGS = DEFAULT_SINGLE_PLAYER_SETTINGS\<lparr>scoringMode := Some Cards\<rparr>"

datatype GamePhase = waiting | playing | ended

datatype GameEndReason = deck_empty | timer_expired | player_quit

record GameState =
  phase :: GamePhase
  deck :: "CardInstance list"
  activeCards :: "CardInstance list"
  players :: "Player list"
  settings :: Settings
  turnTimeRemainingMs :: "int option"
  gameTimeRemainingMs :: "int option"
  endReason :: "GameEndReason option"
  startedAt :: "int option"

record ChatMessage =
  message_id :: string
  message_playerId :: PlayerId
  message_playerName :: string
  content :: string
  message_timestamp :: int

record LobbyState =
  code :: string
  hostId :: PlayerId
  lobbyPlayers :: "Player list"
  lobbySettings :: Settings
  settingsUnlocked :: bool
  chatMessages :: "ChatMessage list"

datatype ErrorCode =
    LOBBY_NOT_FOUND | LOBBY_FULL | LOBBY_GAME_IN_PROGRESS | NOT_HOST | SETTINGS_LOCKED
  | PLAYERS_NOT_READY | GAME_NOT_STARTED | INVALID_CARD | CARD_ALREADY_CLAIMED
  | NOT_A_VALID_SET | NO_PENDING_SET | INVALID_REQUEST | UNAUTHORIZED

text \<open>\<open>Result<T> = T | {error, message}\<close>: \<open>Inl\<close> carries the error code and the message.\<close>
type_synonym 'a Result = "(ErrorCode \<times> string) + 'a"

section \<open>Array helpers\<close>

text \<open>\<open>Array.prototype.findIndex\<close>; \<open>None\<close> stands for the result \<open>-1\<close>.\<close>
fun findIndex :: "('a \<Rightarrow> bool) \<Rightarrow> 'a list \<Rightarrow> nat option" where
  "findIndex P [] = None"
| "findIndex P (x # xs) =
     (if P x then Some 0 else map_option Suc (findIndex P xs))"

section \<open>Deck service (shared/src/game/deck.ts)\<close>

text \<open>
  The two sources of nondeterminism are parameters. \<open>gen k\<close> is the string returned by
  the \<open>k\<close>-th call of \<open>generateCardId\<close> within one operation, and \<open>rnd k\<close> stands
  for the \<open>k\<close>-th draw of \<open>Math.random\<close>: \<open>Math.floor(Math.random() * (i + 1))\<close>
  is some index in \<open>0..i\<close>, modelled as \<open>rnd k mod (i + 1)\<close>.
\<close>
type_synonym IdGen = "nat \<Rightarrow> CardId"
type_synonym Rand = "nat \<Rightarrow> nat"

definition createDeck :: "IdGen \<Rightarrow> CardInstance list" where
  "createDeck gen =
     map (\<lambda>k. \<lparr>card_id = gen k, card_value = int k + 1\<rparr>) [0..<DECK_SIZE]"

text \<open>
  Fisher-Yates: \<open>for (i = array.length - 1; i > 0; i--)\<close> swaps \<open>array[i]\<close> and
  \<open>array[j]\<close>; \<open>k\<close> counts the draws made so far.
\<close>
fun shuffle_loop :: "Rand \<Rightarrow> nat \<Rightarrow> nat \<Rightarrow> 'a list \<Rightarrow> 'a list" where
  "shuffle_loop rnd k 0 array = array"
| "shuffle_loop rnd k (Suc i') array =
     (let i = Suc i';
          j = rnd k mod (i + 1)
      in shuffle_loop rnd (k + 1) i' (array[i := array ! j, j := array ! i]))"

definition shuffle :: "Rand \<Rightarrow> 'a list \<Rightarrow> 'a list" where
  "shuffle rnd array = shuffle_loop rnd 0 (length array - 1) array"

definition createShuffledDeck :: "IdGen \<Rightarrow> Rand \<Rightarrow> CardInstance list" where
  "createShuffledDeck gen rnd = shuffle rnd (createDeck gen)"

text \<open>
  \<open>dealCards\<close> pops from the end of the deck while \<open>i < count && deck.length > 0\<close>.
  The source mutates the deck; the model returns the dealt cards and the remaining deck.
\<close>
fun dealCards_loop ::
  "nat \<Rightarrow> CardInstance list \<Rightarrow> CardInstance list \<Rightarrow> CardInstance list \<times> CardInstance list" where
  "dealCards_loop 0 dk dealt = (dealt, dk)"
| "dealCards_loop (Suc n) dk dealt =
     (if dk = [] then (dealt, dk)
      else dealCards_loop n (butlast dk) (dealt @ [last dk]))"

text \<open>A negative \<open>count\<close> runs the loop zero times, as \<open>nat count = 0\<close> does.\<close>
definition dealCards :: "CardInstance list \<Rightarrow> int \<Rightarrow> CardInstance list \<times> CardInstance list" where
  "dealCards dk cnt = dealCards_loop (nat cnt) dk []"

text \<open>\<open>returnCardsToDeck\<close> re-mints the ids, appends to the deck and shuffles it.\<close>
definition returnCardsToDeck ::
  "IdGen \<Rightarrow> Rand \<Rightarrow> CardInstance list \<Rightarrow> CardInstance list \<Rightarrow> CardInstance list" where
  "returnCardsToDeck gen rnd dk cs =
     (let cardsWithNewIds =
            map (\<lambda>(k, c). \<lparr>card_id = gen k, card_value = card_value c\<rparr>) (enumerate 0 cs)
      in shuffle rnd (dk @ cardsWithNewIds))"

section \<open>Game state engine (shared/src/game/state.ts)\<close>

definition createSinglePlayerGame ::
  "IdGen \<Rightarrow> Rand \<Rightarrow> int \<Rightarrow> PlayerId \<Rightarrow> string \<Rightarrow> Settings \<Rightarrow> GameState" where
  "createSinglePlayerGame gen rnd now playerId playerName st =
     (let (active, dk) = dealCards (createShuffledDeck gen rnd) (int ACTIVE_CARD_COUNT);
          player = \<lparr>player_id = playerId, name = playerName, playerNumber = 1,
                    color = ''#3B82F6'', claimedCards = [], selectedCardIds = [],
                    score = 0, isConnected = True, isReady = True\<rparr>
      in \<lparr>phase = playing, deck = dk, activeCards = active, players = [player],
          settings = st,
          turnTimeRemainingMs = map_option durationMs (turnTimer st),
          gameTimeRemainingMs = map_option durationMs (gameTimer st),
          endReason = None, startedAt = Some now\<rparr>)"

definition createMultiplayerGame ::
  "IdGen \<Rightarrow> Rand \<Rightarrow> int \<Rightarrow> Player list \<Rightarrow> Settings \<Rightarrow> GameState" where
  "createMultiplayerGame gen rnd now ps st =
     (let (active, dk) = dealCards (createShuffledDeck gen rnd) (int ACTIVE_CARD_COUNT);
          gamePlayers = map (\<lambda>(index, p). p\<lparr>claimedCards := [], selectedCardIds := [],
                                             score := 0, playerNumber := int index + 1\<rparr>)
                            (enumerate 0 ps)
      in \<lparr>phase = playing, deck = dk, activeCards = active, players = gamePlayers,
          settings = st,
          turnTimeRemainingMs = map_option durationMs (turnTimer st),
          gameTimeRemainingMs = map_option durationMs (gameTimer st),
          endReason = None, startedAt = Some now\<rparr>)"

definition toggleCardSelection :: "GameState \<Rightarrow> PlayerId \<Rightarrow> CardId \<Rightarrow> GameState" where
  "toggleCardSelection s playerId cardId =
     (case findIndex (\<lambda>p. player_id p = playerId) (players s) of
        None \<Rightarrow> s
      | Some playerIndex \<Rightarrow>
          if \<not> list_ex (\<lambda>c. card_id c = cardId) (activeCards s) then s
          else
            (let player = players s ! playerIndex;
                 isSelected = (cardId \<in> set (selectedCardIds player));
                 newSelection =
                   (if isSelected then filter (\<lambda>i. i \<noteq> cardId) (selectedCardIds player)
                    else selectedCardIds player @ [cardId]);
                 newPlayers = (players s)[playerIndex := player\<lparr>selectedCardIds := newSelection\<rparr>]
             in s\<lparr>players := newPlayers\<rparr>))"

definition getSelectedCardValues :: "GameState \<Rightarrow> PlayerId \<Rightarrow> Card list" where
  "getSelectedCardValues s playerId =
     (case find (\<lambda>p. player_id p = playerId) (players s) of
        None \<Rightarrow> []
      | Some player \<Rightarrow>
          map card_value
            (List.map_filter (\<lambda>i. find (\<lambda>c. card_id c = i) (activeCards s))
               (selectedCardIds player)))"

definition isPlayerSelectionValid :: "GameState \<Rightarrow> PlayerId \<Rightarrow> bool" where
  "isPlayerSelectionValid s playerId = isValidSet (getSelectedCardValues s playerId)"

text \<open>
  \<open>claimSet\<close> returns the pair \<open>{state, pointsAwarded}\<close>. The three early returns come
  first; \<open>claimed\<close> is the source's local \<open>claimedCards\<close>.
\<close>
definition claimSet ::
  "IdGen \<Rightarrow> Rand \<Rightarrow> GameState \<Rightarrow> PlayerId \<Rightarrow> CardId list \<Rightarrow> GameState \<times> int" where
  "claimSet gen rnd s playerId cardIds =
     (case findIndex (\<lambda>p. player_id p = playerId) (players s) of
        None \<Rightarrow> (s, 0)
      | Some playerIndex \<Rightarrow>
          (let claimed = List.map_filter (\<lambda>i. find (\<lambda>c. card_id c = i) (activeCards s)) cardIds
           in if length claimed \<noteq> length cardIds then (s, 0)
              else if \<not> isValidSet (map card_value claimed) then (s, 0)
              else
                (let mode = (case scoringMode (settings s) of None \<Rightarrow> Cards | Some m \<Rightarrow> m);
                     pointsAwarded = (if mode = Cards then int (length claimed) else 1);
                     remaining = filter (\<lambda>c. card_id c \<notin> set cardIds) (activeCards s);
                     deck0 = (if infiniteDeck (settings s)
                              then returnCardsToDeck gen rnd (deck s) claimed else deck s);
                     cardsNeeded = int ACTIVE_CARD_COUNT - int (length remaining);
                     (newCards, newDeck) = dealCards deck0 cardsNeeded;
                     newActiveCards = remaining @ newCards;
                     newPlayers =
                       map (\<lambda>(i, p).
                              if i = playerIndex
                              then p\<lparr>claimedCards := claimedCards p @ claimed,
                                     selectedCardIds := [],
                                     score := score p + pointsAwarded\<rparr>
                              else p\<lparr>selectedCardIds :=
                                       filter (\<lambda>i. i \<notin> set cardIds) (selectedCardIds p)\<rparr>)
                           (enumerate 0 (players s))
                 in (s\<lparr>deck := newDeck, activeCards := newActiveCards, players := newPlayers,
                       turnTimeRemainingMs := map_option durationMs (turnTimer (settings s))\<rparr>,
                     pointsAwarded))))"

definition clearSelection :: "GameState \<Rightarrow> PlayerId \<Rightarrow> GameState" where
  "clearSelection s playerId =
     (case findIndex (\<lambda>p. player_id p = playerId) (players s) of
        None \<Rightarrow> s
      | Some playerIndex \<Rightarrow>
          s\<lparr>players := (players s)[playerIndex :=
                          (players s ! playerIndex)\<lparr>selectedCardIds := []\<rparr>]\<rparr>)"

definition checkGameEnd :: "GameState \<Rightarrow> GameEndReason option" where
  "checkGameEnd s =
     (if (case gameTimeRemainingMs s of None \<Rightarrow> False | Some t \<Rightarrow> t \<le> 0)
      then Some timer_expired
      else if (case turnTimeRemainingMs s of None \<Rightarrow> False | Some t \<Rightarrow> t \<le> 0)
      then Some timer_expired
      else if length (deck s) = 0 \<and> \<not> infiniteDeck (settings s)
              \<and> \<not> hasValidSet (map card_value (activeCards s))
      then Some deck_empty
      else None)"

definition endGame :: "GameState \<Rightarrow> GameEndReason \<Rightarrow> GameState" where
  "endGame s reason = s\<lparr>phase := ended, endReason := Some reason\<rparr>"

definition updateTimers :: "GameState \<Rightarrow> int \<Rightarrow> GameState" where
  "updateTimers s elapsedMs =
     s\<lparr>turnTimeRemainingMs := map_option (\<lambda>t. max 0 (t - elapsedMs)) (turnTimeRemainingMs s),
       gameTimeRemainingMs := map_option (\<lambda>t. max 0 (t - elapsedMs)) (gameTimeRemainingMs s)\<rparr>"

section \<open>Lobby manager (server/src/managers/LobbyManager.ts)\<close>

definition PLAYER_COLORS :: "string list" where
  "PLAYER_COLORS = [''#3B82F6'', ''#EF4444'', ''#10B981'', ''#F59E0B'',
                    ''#8B5CF6'', ''#EC4899'', ''#06B6D4'', ''#F97316'']"

type_synonym Lobbies = "string \<rightharpoonup> LobbyState"

text \<open>
  \<open>joinLobby\<close>; \<open>maxPlayersPerLobby\<close> is \<open>config.maxPlayersPerLobby\<close> (default 8).
  The lobby object is mutated in place by the source, so the registry is returned too.
  The checks are in the source's order: not found, full, already a member.
\<close>
definition joinLobby ::
  "int \<Rightarrow> Lobbies \<Rightarrow> string \<Rightarrow> PlayerId \<Rightarrow> string \<Rightarrow> (LobbyState \<times> Player) Result \<times> Lobbies" where
  "joinLobby maxPlayersPerLobby lobbies lobbyCode playerId playerName =
     (case lobbies lobbyCode of
        None \<Rightarrow> (Inl (LOBBY_NOT_FOUND, ''Lobby not found''), lobbies)
      | Some lobby \<Rightarrow>
          if int (length (lobbyPlayers lobby)) \<ge> maxPlayersPerLobby
          then (Inl (LOBBY_FULL, ''Lobby is full''), lobbies)
          else if list_ex (\<lambda>p. player_id p = playerId) (lobbyPlayers lobby)
          then (Inr (lobby, the (find (\<lambda>p. player_id p = playerId) (lobbyPlayers lobby))), lobbies)
          else
            (let number = length (lobbyPlayers lobby) + 1;
                 player = \<lparr>player_id = playerId, name = playerName, playerNumber = int number,
                           color = PLAYER_COLORS ! ((number - 1) mod length PLAYER_COLORS),
                           claimedCards = [], selectedCardIds = [], score = 0,
                           isConnected = True, isReady = False\<rparr>;
                 lobby' = lobby\<lparr>lobbyPlayers := lobbyPlayers lobby @ [player]\<rparr>
             in (Inr (lobby', player), lobbies(lobbyCode \<mapsto> lobby'))))"

section \<open>Game manager (server/src/managers/GameManager.ts)\<close>

record PendingSet =
  pendingPlayerId :: PlayerId
  pendingCardIds :: "CardId list"
  pendingTimestamp :: int

text \<open>\<open>loopInterval\<close> is the handle of the running interval timer, or \<open>None\<close>.\<close>
record GameInstance =
  state :: GameState
  pendingSet :: "PendingSet option"
  loopInterval :: "nat option"

type_synonym Games = "string \<rightharpoonup> GameInstance"

text \<open>The success payload of \<open>GameManager.claimSet\<close> and \<open>GameManager.confirmSet\<close>.\<close>
record ClaimPayload =
  res_claimedCardIds :: "CardId list"
  res_pointsAwarded :: int
  res_newCards :: "CardInstance list"
  res_gameEnded :: bool

definition createGame :: "Games \<Rightarrow> string \<Rightarrow> GameState \<Rightarrow> Games" where
  "createGame games lobbyCode initialState =
     games(lobbyCode \<mapsto> \<lparr>state = initialState, pendingSet = None, loopInterval = None\<rparr>)"

definition stopGameLoop :: "Games \<Rightarrow> string \<Rightarrow> Games" where
  "stopGameLoop games lobbyCode =
     (case games lobbyCode of
        None \<Rightarrow> games
      | Some game \<Rightarrow>
          if loopInterval game \<noteq> None then games(lobbyCode \<mapsto> game\<lparr>loopInterval := None\<rparr>)
          else games)"

definition setPendingSet :: "int \<Rightarrow> Games \<Rightarrow> string \<Rightarrow> PlayerId \<Rightarrow> CardId list \<Rightarrow> Games" where
  "setPendingSet now games lobbyCode playerId cardIds =
     (case games lobbyCode of
        None \<Rightarrow> games
      | Some game \<Rightarrow>
          if pendingSet game = None
          then games(lobbyCode \<mapsto> game\<lparr>pendingSet :=
                 Some \<lparr>pendingPlayerId = playerId, pendingCardIds = cardIds,
                        pendingTimestamp = now\<rparr>\<rparr>)
          else games)"

text \<open>
  \<open>GameManager.claimSet\<close>: a claim that awards 0 points is reported as
  \<open>NOT_A_VALID_SET\<close> and leaves the instance untouched.
\<close>
definition GameManager_claimSet ::
  "IdGen \<Rightarrow> Rand \<Rightarrow> Games \<Rightarrow> string \<Rightarrow> PlayerId \<Rightarrow> CardId list \<Rightarrow> ClaimPayload Result \<times> Games" where
  "GameManager_claimSet gen rnd games lobbyCode playerId cardIds =
     (case games lobbyCode of
        None \<Rightarrow> (Inl (GAME_NOT_STARTED, ''Game not found''), games)
      | Some game \<Rightarrow>
          (let activeCardsBefore = map card_id (activeCards (state game));
               claimResult = claimSet gen rnd (state game) playerId cardIds
           in if snd claimResult = 0
              then (Inl (NOT_A_VALID_SET, ''Not a valid set''), games)
              else
                (let game1 = game\<lparr>state := fst claimResult\<rparr>;
                     newCards = filter (\<lambda>c. card_id c \<notin> set activeCardsBefore)
                                  (activeCards (state game1))
                 in case checkGameEnd (state game1) of
                      Some reason \<Rightarrow>
                        (Inr \<lparr>res_claimedCardIds = cardIds,
                               res_pointsAwarded = snd claimResult,
                               res_newCards = newCards, res_gameEnded = True\<rparr>,
                         stopGameLoop
                           (games(lobbyCode \<mapsto> game1\<lparr>state := endGame (state game1) reason\<rparr>))
                           lobbyCode)
                    | None \<Rightarrow>
                        (Inr \<lparr>res_claimedCardIds = cardIds,
                               res_pointsAwarded = snd claimResult,
                               res_newCards = newCards, res_gameEnded = False\<rparr>,
                         games(lobbyCode \<mapsto> game1)))))"

text \<open>
  \<open>GameManager.confirmSet\<close>: an error of the delegated claim is returned before the
  line that clears the pending set; the clearing acts on the instance as the claim left it.
\<close>
definition GameManager_confirmSet ::
  "IdGen \<Rightarrow> Rand \<Rightarrow> Games \<Rightarrow> string \<Rightarrow> PlayerId \<Rightarrow> ClaimPayload Result \<times> Games" where
  "GameManager_confirmSet gen rnd games lobbyCode playerId =
     (case games lobbyCode of
        None \<Rightarrow> (Inl (GAME_NOT_STARTED, ''Game not found''), games)
      | Some game \<Rightarrow>
          (case pendingSet game of
             None \<Rightarrow> (Inl (NO_PENDING_SET, ''No pending set to confirm''), games)
           | Some pending \<Rightarrow>
               if pendingPlayerId pending \<noteq> playerId
               then (Inl (NO_PENDING_SET, ''No pending set to confirm''), games)
               else
                 (let (result, games1) =
                        GameManager_claimSet gen rnd games lobbyCode playerId
                          (pendingCardIds pending)
                  in case result of
                       Inl err \<Rightarrow> (Inl err, games1)
                     | Inr payload \<Rightarrow>
                         (Inr payload,
                          (case games1 lobbyCode of
                             None \<Rightarrow> games1
                           | Some game1 \<Rightarrow> games1(lobbyCode \<mapsto> game1\<lparr>pendingSet := None\<rparr>))))))"

definition GameManager_clearSelection ::
  "Games \<Rightarrow> string \<Rightarrow> PlayerId \<Rightarrow> unit Result \<times> Games" where
  "GameManager_clearSelection games lobbyCode playerId =
     (case games lobbyCode of
        None \<Rightarrow> (Inl (GAME_NOT_STARTED, ''Game not found''), games)
      | Some game \<Rightarrow>
          (let game1 = game\<lparr>state := clearSelection (state game) playerId\<rparr>;
               game2 = (if map_option pendingPlayerId (pendingSet game1) = Some playerId
                        then game1\<lparr>pendingSet := None\<rparr> else game1)
           in (Inr (), games(lobbyCode \<mapsto> game2))))"

section \<open>Notions used to state the properties\<close>

text \<open>The exclusive or of all values of a list.\<close>
definition XOR_all :: "int list \<Rightarrow> int" where
  "XOR_all L = foldr (XOR) L 0"

text \<open>The values on which the conversion to a signed 32-bit integer is the identity.\<close>
definition in_int32 :: "int \<Rightarrow> bool" where
  "in_int32 v \<longleftrightarrow> - (2 ^ 31) \<le> v \<and> v < 2 ^ 31"

text \<open>The sublist of \<open>xs\<close> selected by the bits of \<open>m\<close>: bit \<open>i\<close> selects \<open>xs ! i\<close>.\<close>
fun pick :: "'a list \<Rightarrow> int \<Rightarrow> 'a list" where
  "pick [] m = []"
| "pick (x # xs) m = (if odd m then x # pick xs (m div 2) else pick xs (m div 2))"

text \<open>Some group of the given values, taken by position, is a valid set.\<close>
definition validSetExists :: "Card list \<Rightarrow> bool" where
  "validSetExists vs \<longleftrightarrow> (\<exists>ys \<in> set (subseqs vs). isValidSet ys)"

text \<open>The card instances that \<open>claimSet\<close> finds on the table for the given ids.\<close>
definition claimedInstances :: "GameState \<Rightarrow> CardId list \<Rightarrow> CardInstance list" where
  "claimedInstances s cardIds =
     List.map_filter (\<lambda>i. find (\<lambda>c. card_id c = i) (activeCards s)) cardIds"

text \<open>A claim succeeds when it passes the three early returns of \<open>claimSet\<close>.\<close>
definition claimSucceeds :: "GameState \<Rightarrow> PlayerId \<Rightarrow> CardId list \<Rightarrow> bool" where
  "claimSucceeds s playerId cardIds \<longleftrightarrow>
     findIndex (\<lambda>p. player_id p = playerId) (players s) \<noteq> None
     \<and> length (claimedInstances s cardIds) = length cardIds
     \<and> isValidSet (map card_value (claimedInstances s cardIds))"

text \<open>
  The intermediate values of a successful \<open>claimSet\<close>: the table without the claimed
  ids, the deck before dealing (with the claimed cards returned in infinite-deck mode),
  and the result of dealing the replacement cards.
\<close>
definition claimRemaining :: "GameState \<Rightarrow> CardId list \<Rightarrow> CardInstance list" where
  "claimRemaining s cardIds = filter (\<lambda>c. card_id c \<notin> set cardIds) (activeCards s)"

definition claimDeck :: "IdGen \<Rightarrow> Rand \<Rightarrow> GameState \<Rightarrow> CardId list \<Rightarrow> CardInstance list" where
  "claimDeck gen rnd s cardIds =
     (if infiniteDeck (settings s)
      then returnCardsToDeck gen rnd (deck s) (claimedInstances s cardIds) else deck s)"

definition claimDealt ::
  "IdGen \<Rightarrow> Rand \<Rightarrow> GameState \<Rightarrow> CardId list \<Rightarrow> CardInstance list \<times> CardInstance list" where
  "claimDealt gen rnd s cardIds =
     dealCards (claimDeck gen rnd s cardIds)
       (int ACTIVE_CARD_COUNT - int (length (claimRemaining s cardIds)))"

text \<open>\<open>|deck| + |activeCards| + \<Sigma> |claimedCards|\<close>\<close>
definition totalCards :: "GameState \<Rightarrow> nat" where
  "totalCards s =
     length (deck s) + length (activeCards s)
       + sum_list (map (\<lambda>p. length (claimedCards p)) (players s))"

text \<open>
  The ids that \<open>generateCardId\<close> returns during one operation are unique: the first
  \<open>n\<close> ids of \<open>gen\<close> are pairwise distinct and none is the id of a card in the deck
  or on the table of \<open>s\<close>.
\<close>
definition freshIds :: "IdGen \<Rightarrow> nat \<Rightarrow> GameState \<Rightarrow> bool" where
  "freshIds gen n s \<longleftrightarrow>
     distinct (map gen [0..<n])
     \<and> set (map gen [0..<n]) \<inter> set (map card_id (deck s @ activeCards s)) = {}"

text \<open>
  The states of a game: a freshly created game whose 63 card ids are unique, followed by
  any sequence of transitions of the engine. A claim names pairwise distinct card ids,
  and the ids re-minted in infinite-deck mode are fresh.
\<close>
inductive reachable :: "GameState \<Rightarrow> bool" where
  single: "distinct (map gen [0..<DECK_SIZE])
             \<Longrightarrow> reachable (createSinglePlayerGame gen rnd now playerId playerName st)"
| multi: "distinct (map gen [0..<DECK_SIZE])
             \<Longrightarrow> reachable (createMultiplayerGame gen rnd now ps st)"
| toggle: "reachable s \<Longrightarrow> reachable (toggleCardSelection s playerId cardId)"
| clear: "reachable s \<Longrightarrow> reachable (clearSelection s playerId)"
| timers: "reachable s \<Longrightarrow> reachable (updateTimers s elapsedMs)"
| finish: "reachable s \<Longrightarrow> reachable (endGame s reason)"
| claim: "reachable s \<Longrightarrow> distinct cardIds
             \<Longrightarrow> (infiniteDeck (settings s) \<longrightarrow> freshIds gen (length cardIds) s)
             \<Longrightarrow> reachable (fst (claimSet gen rnd s playerId cardIds))"

text \<open>
  The invariant of the reachable states: the ids of the cards in the deck and on the
  table are unique; the deck and the table hold 63 cards in infinite-deck mode, and
  deck, table and claimed piles together hold 63 cards otherwise.
\<close>
definition cardInvariant :: "GameState \<Rightarrow> bool" where
  "cardInvariant s \<longleftrightarrow>
     distinct (map card_id (deck s @ activeCards s))
     \<and> (if infiniteDeck (settings s)
        then length (deck s) + length (activeCards s) = 63
        else totalCards s = 63)"

subsection \<open>Concrete inputs\<close>

text \<open>A table of seven cards with the set 1, 2, 3, a short deck and two players who have
  both selected that set.\<close>
definition exTable :: "CardInstance list" where
  "exTable = [\<lparr>card_id = ''card1'', card_value = 1\<rparr>, \<lparr>card_id = ''card2'', card_value = 2\<rparr>,
              \<lparr>card_id = ''card3'', card_value = 3\<rparr>, \<lparr>card_id = ''card4'', card_value = 4\<rparr>,
              \<lparr>card_id = ''card5'', card_value = 8\<rparr>, \<lparr>card_id = ''card6'', card_value = 16\<rparr>,
              \<lparr>card_id = ''card7'', card_value = 32\<rparr>]"

definition exDeck :: "CardInstance list" where
  "exDeck = [\<lparr>card_id = ''card8'', card_value = 5\<rparr>, \<lparr>card_id = ''card9'', card_value = 6\<rparr>,
             \<lparr>card_id = ''card10'', card_value = 7\<rparr>, \<lparr>card_id = ''card11'', card_value = 9\<rparr>]"

definition exPlayer :: "PlayerId \<Rightarrow> string \<Rightarrow> int \<Rightarrow> CardId list \<Rightarrow> Player" where
  "exPlayer playerId playerName number selection =
     \<lparr>player_id = playerId, name = playerName, playerNumber = number, color = ''#3B82F6'',
      claimedCards = [], selectedCardIds = selection, score = 0,
      isConnected = True, isReady = True\<rparr>"

definition exSettings :: Settings where
  "exSettings = \<lparr>colorsEnabled = True, binaryMode = False,
                  turnTimer = Some \<lparr>durationMs = 30000\<rparr>, gameTimer = None,
                  setFoundBehavior = immediate, infiniteDeck = False,
                  scoringMode = Some Cards\<rparr>"

definition exState :: GameState where
  "exState = \<lparr>phase = playing, deck = exDeck, activeCards = exTable,
               players = [exPlayer ''player1'' ''Ann'' 1 [''card1'', ''card2'', ''card3''],
                          exPlayer ''player2'' ''Bob'' 2 [''card1'', ''card2'', ''card3'']],
               settings = exSettings, turnTimeRemainingMs = Some 12000,
               gameTimeRemainingMs = None, endReason = None, startedAt = Some 0\<rparr>"

text \<open>The registry of a room in click-to-confirm mode that holds \<open>exState\<close>.\<close>
definition exGames :: Games where
  "exGames = createGame Map.empty ''ROOM42''
               (exState\<lparr>settings := exSettings\<lparr>setFoundBehavior := click\<rparr>\<rparr>)"

text \<open>
  A lobby as \<open>createLobby\<close> builds it for the host \<open>player1\<close>, and the registry after
  \<open>player2\<close>, ..., \<open>player8\<close> have joined it.
\<close>
definition exHostLobby :: LobbyState where
  "exHostLobby = \<lparr>code = ''ROOM42'', hostId = ''player1'',
       lobbyPlayers = [\<lparr>player_id = ''player1'', name = ''Ann'', playerNumber = 1,
                         color = PLAYER_COLORS ! 0, claimedCards = [], selectedCardIds = [],
                         score = 0, isConnected = True, isReady = False\<rparr>],
       lobbySettings = DEFAULT_MULTIPLAYER_SETTINGS, settingsUnlocked = False,
       chatMessages = []\<rparr>"

definition exFullLobbies :: Lobbies where
  "exFullLobbies =
     foldl (\<lambda>lobbies k. snd (joinLobby 8 lobbies ''ROOM42'' (''player'' @ [char_of (k + 48)])
                               ''Guest''))
       [''ROOM42'' \<mapsto> exHostLobby] [2..<9]"

text \<open>
  A freshly created game: the ids are \<open>card_0\<close>, \<open>card_1\<close>, ... in creation order, and
  the draws of the shuffle bring the cards 1, 2 and 3 to the top of the deck.
\<close>
definition exGen :: IdGen where
  "exGen k = ''card_'' @ [char_of (k + 48)]"

definition exGen' :: IdGen where
  "exGen' k = ''again_'' @ [char_of (k + 48)]"

definition exRnd :: Rand where
  "exRnd k = (if k < 3 then k else 62 - k)"

definition exGame :: "Settings \<Rightarrow> GameState" where
  "exGame st = createSinglePlayerGame exGen exRnd 0 ''player1'' ''Ann'' st"


section \<open>The set validator\<close>

subsection \<open>Bit masks and sublists\<close>

lemma toInt32_id: "0 \<le> x \<Longrightarrow> x < 2 ^ 31 \<Longrightarrow> toInt32 x = x"
  unfolding toInt32_def
  by (rule signed_take_bit_int_eq_self) simp_all

lemma pow2_lt31: "n < 31 \<Longrightarrow> (2::int) ^ n < 2 ^ 31"
  by (rule power_strict_increasing) simp_all

lemma js_shl_one: "n < 31 \<Longrightarrow> js_shl 1 n = 2 ^ n"
  using pow2_lt31 [of n] by (simp add: js_shl_def toInt32_id push_bit_eq_mult)

lemma pick_zero: "pick xs 0 = []"
  by (induction xs) simp_all

lemma js_and_bit:
  assumes "0 \<le> m" "m < 2 ^ 31" "i < 31"
  shows "js_and m (js_shl 1 i) \<noteq> 0 \<longleftrightarrow> bit m i"
proof -
  have "js_and m (js_shl 1 i) = m AND 2 ^ i"
    using assms pow2_lt31 [of i] by (simp add: js_and_def js_shl_one toInt32_id)
  then show ?thesis
    by (simp add: and_exp_eq_0_iff_not_bit)
qed

lemma foldl_pick:
  "foldl (\<lambda>a i. if bit m i then g a (cards ! i) else a) a0 [0..<length cards]
     = foldl g a0 (pick cards m)"
proof (induction cards arbitrary: m a0)
  case Nil
  show ?case by simp
next
  case (Cons x xs)
  let ?f = "\<lambda>a i. if bit m i then g a ((x # xs) ! i) else a"
  let ?h = "\<lambda>a i. if bit (m div 2) i then g a (xs ! i) else a"
  have upt: "[0..<length (x # xs)] = 0 # map Suc [0..<length xs]"
    by (simp add: upt_conv_Cons map_Suc_upt del: upt_Suc)
  have shift: "(\<lambda>a i. ?f a (Suc i)) = ?h"
    by (intro ext) (simp add: bit_Suc)
  have "foldl ?f a0 [0..<length (x # xs)]
        = foldl (\<lambda>a i. ?f a (Suc i)) (?f a0 0) [0..<length xs]"
    unfolding upt by (simp add: foldl_map)
  also have "\<dots> = foldl ?h (?f a0 0) [0..<length xs]"
    unfolding shift ..
  also have "\<dots> = foldl g (?f a0 0) (pick xs (m div 2))"
    by (rule Cons.IH)
  also have "\<dots> = foldl g a0 (pick (x # xs) m)"
    by (simp add: bit_0)
  finally show ?case .
qed

lemma subsetXor_pick:
  assumes "0 \<le> m" "m < 2 ^ 31" "length cards \<le> 31"
  shows "subsetXor cards m = foldl js_xor 0 (pick cards m)"
proof -
  have "subsetXor cards m =
     foldl (\<lambda>a i. if bit m i then js_xor a (cards ! i) else a) 0 [0..<length cards]"
    unfolding subsetXor_def
    by (rule foldl_cong) (use assms in \<open>simp_all add: js_and_bit\<close>)
  then show ?thesis by (simp add: foldl_pick)
qed

lemma js_ushr_one: "0 \<le> m \<Longrightarrow> m < 2 ^ 31 \<Longrightarrow> js_ushr m (Suc 0) = m div 2"
  by (simp add: js_ushr_def toUint32_def drop_bit_eq_div take_bit_int_eq_self)

lemma js_and_one: "0 \<le> m \<Longrightarrow> m < 2 ^ 31 \<Longrightarrow> js_and m 1 = m mod 2"
  by (simp add: js_and_def toInt32_id and_one_eq)

lemma countBits_loop_pick:
  "0 \<le> m \<Longrightarrow> m < 2 ^ length xs \<Longrightarrow> length xs \<le> 31 \<Longrightarrow>
     countBits_loop m c = c + int (length (pick xs m))"
proof (induction xs arbitrary: m c)
  case Nil
  then have "m = 0" by simp
  then show ?case by (simp add: countBits_loop.simps)
next
  case (Cons x xs)
  show ?case
  proof (cases "m = 0")
    case True
    then show ?thesis by (simp add: pick_zero countBits_loop.simps)
  next
    case False
    have m31: "m < 2 ^ 31"
    proof -
      have "(2::int) ^ length (x # xs) \<le> 2 ^ 31"
        by (rule power_increasing) (use Cons.prems in simp_all)
      with Cons.prems(2) show ?thesis by linarith
    qed
    have half: "0 \<le> m div 2" "m div 2 < 2 ^ length xs"
      using Cons.prems by auto
    have "countBits_loop m c = countBits_loop (m div 2) (c + m mod 2)"
      using False Cons.prems(1) m31
      by (subst countBits_loop.simps) (simp add: js_ushr_one js_and_one)
    also have "\<dots> = c + m mod 2 + int (length (pick xs (m div 2)))"
      using half Cons.prems(3) by (intro Cons.IH) simp_all
    finally show ?thesis
      by (simp add: odd_iff_mod_2_eq_one even_iff_mod_2_eq_zero)
  qed
qed

lemma hasValidSet_loop_iff:
  "hasValidSet_loop cards m0 \<longleftrightarrow>
     (\<exists>m. m0 \<le> m \<and> m < js_shl 1 (length cards)
          \<and> int MIN_SET_SIZE \<le> countBits m \<and> subsetXor cards m = 0)"
proof (induction cards m0 rule: hasValidSet_loop.induct)
  case (1 cards m0)
  let ?P = "\<lambda>m. m < js_shl 1 (length cards)
          \<and> int MIN_SET_SIZE \<le> countBits m \<and> subsetXor cards m = 0"
  show ?case
  proof (cases "m0 < js_shl 1 (length cards)")
    case False
    then show ?thesis
      by (subst hasValidSet_loop.simps) auto
  next
    case lt: True
    have step: "(\<exists>m. m0 \<le> m \<and> ?P m) \<longleftrightarrow> ?P m0 \<or> (\<exists>m. m0 + 1 \<le> m \<and> ?P m)"
    proof
      assume "\<exists>m. m0 \<le> m \<and> ?P m"
      then obtain m where m: "m0 \<le> m" "?P m" by blast
      then show "?P m0 \<or> (\<exists>m. m0 + 1 \<le> m \<and> ?P m)"
        by (cases "m = m0") auto
    next
      assume "?P m0 \<or> (\<exists>m. m0 + 1 \<le> m \<and> ?P m)"
      then show "\<exists>m. m0 \<le> m \<and> ?P m"
      proof
        assume "?P m0"
        then show ?thesis by (intro exI [of _ m0]) simp
      next
        assume "\<exists>m. m0 + 1 \<le> m \<and> ?P m"
        then obtain m where "m0 + 1 \<le> m" "?P m" by blast
        then show ?thesis by (intro exI [of _ m]) simp
      qed
    qed
    show ?thesis
    proof (cases "countBits m0 < int MIN_SET_SIZE")
      case True
      then have "hasValidSet_loop cards m0 = hasValidSet_loop cards (m0 + 1)"
        using lt by (subst hasValidSet_loop.simps) simp
      also have "\<dots> \<longleftrightarrow> (\<exists>m. m0 + 1 \<le> m \<and> ?P m)"
        using "1.IH"(1) [OF lt True] .
      finally show ?thesis unfolding step using True by auto
    next
      case nb: False
      show ?thesis
      proof (cases "subsetXor cards m0 = 0")
        case True
        then have "hasValidSet_loop cards m0"
          using lt nb by (subst hasValidSet_loop.simps) simp
        moreover have "?P m0" using lt nb True by simp
        ultimately show ?thesis unfolding step by blast
      next
        case False
        then have "hasValidSet_loop cards m0 = hasValidSet_loop cards (m0 + 1)"
          using lt nb by (subst hasValidSet_loop.simps) simp
        also have "\<dots> \<longleftrightarrow> (\<exists>m. m0 + 1 \<le> m \<and> ?P m)"
          using "1.IH"(2) [OF lt nb False] .
        finally show ?thesis unfolding step using False by auto
      qed
    qed
  qed
qed

lemma pick_subseqs: "set (subseqs xs) = pick xs ` {0 ..< 2 ^ length xs}"
proof (induction xs)
  case Nil
  have "{0 ..< (1::int)} = {0}" by auto
  then show ?case by simp
next
  case (Cons x xs)
  let ?I = "{0 ..< (2::int) ^ length xs}"
  let ?J = "{0 ..< (2::int) ^ length (x # xs)}"
  have "pick (x # xs) ` ?J = Cons x ` pick xs ` ?I \<union> pick xs ` ?I" (is "?L = ?R")
  proof (intro set_eqI iffI)
    fix ys assume "ys \<in> ?L"
    then obtain m where m: "0 \<le> m" "m < 2 * 2 ^ length xs" "ys = pick (x # xs) m"
      by auto
    then have "m div 2 \<in> ?I" by auto
    with m(3) show "ys \<in> ?R" by (cases "odd m") auto
  next
    fix ys assume "ys \<in> ?R"
    then consider m where "m \<in> ?I" "ys = x # pick xs m" | m where "m \<in> ?I" "ys = pick xs m"
      by auto
    then show "ys \<in> ?L"
    proof cases
      case 1
      then have "2 * m + 1 \<in> ?J" "pick (x # xs) (2 * m + 1) = ys" by auto
      then show ?thesis by blast
    next
      case 2
      then have "2 * m \<in> ?J" "pick (x # xs) (2 * m) = ys" by auto
      then show ?thesis by blast
    qed
  qed
  then show ?case
    by (simp add: Cons.IH Let_def Un_commute image_image)
qed

lemma countBits_small: "0 \<le> m \<Longrightarrow> m < 7 \<Longrightarrow> countBits m < 3"
proof -
  assume "0 \<le> m" "m < 7"
  then consider "m = 0" | "m = 1" | "m = 2" | "m = 3" | "m = 4" | "m = 5" | "m = 6"
    by linarith
  then show ?thesis
    by cases (simp_all add: countBits_def countBits_loop.simps js_ushr_def js_and_def
        toInt32_def toUint32_def)
qed

lemma length_pick_le: "length (pick xs m) \<le> length xs"
  by (induction xs arbitrary: m) (auto intro: le_SucI)

lemma hasValidSet_iff_subseqs:
  assumes n: "length cards \<le> 30"
  shows "hasValidSet cards \<longleftrightarrow> (\<exists>ys \<in> set (subseqs cards). isValidSet ys)"
proof -
  have shl: "js_shl 1 (length cards) = 2 ^ length cards"
    using n by (simp add: js_shl_one)
  have p31: "(2::int) ^ length cards < 2 ^ 31"
    by (rule power_strict_increasing) (use n in simp_all)
  have key: "int MIN_SET_SIZE \<le> countBits m \<and> subsetXor cards m = 0
               \<longleftrightarrow> isValidSet (pick cards m)"
    if "0 \<le> m" "m < 2 ^ length cards" for m
  proof -
    have "countBits m = int (length (pick cards m))"
      using that n by (simp add: countBits_def countBits_loop_pick)
    moreover have "subsetXor cards m = foldl js_xor 0 (pick cards m)"
      using that n p31 by (intro subsetXor_pick) simp_all
    ultimately show ?thesis
      by (auto simp: isValidSet_def Let_def)
  qed
  show ?thesis
  proof
    assume "hasValidSet cards"
    then obtain m where m: "7 \<le> m" "m < 2 ^ length cards"
        "int MIN_SET_SIZE \<le> countBits m" "subsetXor cards m = 0"
      by (auto simp: hasValidSet_def hasValidSet_loop_iff shl split: if_splits)
    then have "isValidSet (pick cards m)" using key [of m] by simp
    moreover have "pick cards m \<in> set (subseqs cards)"
      using m by (simp add: pick_subseqs)
    ultimately show "\<exists>ys \<in> set (subseqs cards). isValidSet ys" by blast
  next
    assume "\<exists>ys \<in> set (subseqs cards). isValidSet ys"
    then obtain m where m: "0 \<le> m" "m < 2 ^ length cards" "isValidSet (pick cards m)"
      by (auto simp: pick_subseqs)
    then have v: "int MIN_SET_SIZE \<le> countBits m" "subsetXor cards m = 0"
      using key [of m] by simp_all
    have "7 \<le> m"
    proof (rule ccontr)
      assume "\<not> 7 \<le> m"
      then have "countBits m < 3" using m(1) by (intro countBits_small) simp_all
      with v(1) show False by (simp add: MIN_SET_SIZE_def)
    qed
    moreover have "\<not> length cards < MIN_SET_SIZE"
      using m(3) length_pick_le [of cards m] by (auto simp: isValidSet_def split: if_splits)
    ultimately show "hasValidSet cards"
      using m(2) v by (auto simp: hasValidSet_def hasValidSet_loop_iff shl)
  qed
qed

subsection \<open>The validity law\<close>

lemma toInt32_xor: "toInt32 (a XOR b) = toInt32 a XOR toInt32 b"
  unfolding toInt32_def
  by (rule bit_eqI) (simp add: bit_signed_take_bit_iff bit_xor_iff)

lemma toInt32_idem: "toInt32 (toInt32 a) = toInt32 a"
  by (simp add: toInt32_def)

lemma toInt32_zero: "toInt32 0 = 0"
  by (simp add: toInt32_def)

lemma foldl_js_xor: "foldl js_xor (toInt32 a) L = toInt32 a XOR toInt32 (XOR_all L)"
proof (induction L arbitrary: a)
  case Nil
  show ?case by (simp add: XOR_all_def toInt32_zero)
next
  case (Cons x L)
  have "foldl js_xor (toInt32 a) (x # L) = foldl js_xor (toInt32 (a XOR x)) L"
    by (simp add: js_xor_def toInt32_xor toInt32_idem)
  also have "\<dots> = toInt32 (a XOR x) XOR toInt32 (XOR_all L)"
    by (rule Cons.IH)
  also have "\<dots> = toInt32 a XOR toInt32 (XOR_all (x # L))"
    by (simp add: XOR_all_def toInt32_xor xor.assoc)
  finally show ?case .
qed

lemma foldl_js_xor_0: "foldl js_xor 0 L = toInt32 (XOR_all L)"
  using foldl_js_xor [of 0 L] by (simp add: toInt32_zero)

lemma toInt32_in_range: "in_int32 v \<Longrightarrow> toInt32 v = v"
  unfolding toInt32_def in_int32_def
  by (rule signed_take_bit_int_eq_self) simp_all

lemma in_int32_toInt32: "in_int32 (toInt32 v)"
  unfolding toInt32_def in_int32_def
  using signed_take_bit_int_greater_eq_minus_exp [of 31 v]
    signed_take_bit_int_less_exp [of 31 v] by simp

lemma in_int32_XOR_all: "\<forall>v \<in> set L. in_int32 v \<Longrightarrow> in_int32 (XOR_all L)"
proof (induction L)
  case Nil
  show ?case by (simp add: XOR_all_def in_int32_def)
next
  case (Cons x L)
  then have "toInt32 x = x" "toInt32 (XOR_all L) = XOR_all L"
    by (simp_all add: toInt32_in_range)
  then have "XOR_all (x # L) = toInt32 (x XOR XOR_all L)"
    by (simp add: XOR_all_def toInt32_xor)
  then show ?case by (simp add: in_int32_toInt32)
qed

lemma isValidSet_iff:
  "\<forall>v \<in> set L. in_int32 v \<Longrightarrow> isValidSet L \<longleftrightarrow> 3 \<le> length L \<and> XOR_all L = 0"
  using toInt32_in_range [OF in_int32_XOR_all, of L]
  by (auto simp: isValidSet_def MIN_SET_SIZE_def foldl_js_xor_0)

lemma js_xor_commute: "(\<lambda>a. js_xor (js_xor a x) y) = (\<lambda>a. js_xor (js_xor a y) x)"
  by (intro ext) (simp add: js_xor_def toInt32_xor toInt32_idem xor.assoc xor.left_commute xor.commute)

lemma isValidSet_perm: "mset L' = mset L \<Longrightarrow> isValidSet L' = isValidSet L"
proof -
  assume eq: "mset L' = mset L"
  have "fold (\<lambda>card acc. js_xor acc card) L' = fold (\<lambda>card acc. js_xor acc card) L"
    by (rule fold_multiset_equiv) (simp_all add: eq comp_def js_xor_commute)
  moreover have "length L' = length L" using eq by (rule mset_eq_length)
  ultimately show ?thesis by (simp add: isValidSet_def foldl_conv_fold)
qed

lemma XOR_all_append: "XOR_all (xs @ ys) = XOR_all xs XOR XOR_all ys"
  by (induction xs) (simp_all add: XOR_all_def xor.assoc)

lemma XOR_all_replicate_even: "XOR_all (replicate (2 * k) v) = 0"
  by (induction k) (simp_all add: XOR_all_def)

text \<open>
  Claim C2 (validity law). For every list \<open>L\<close> of card values, \<open>isValidSet L\<close> holds
  exactly when \<open>L\<close> has at least 3 elements and the exclusive or of all its values is 0;
  the result is the same for every permutation of \<open>L\<close>; and repeated values are accepted:
  an even number of copies of a value cancels. Card values are the integers 1..63; the
  law is proved for all values in the signed 32-bit range, on which the operator \<open>^\<close>
  of the source is the exclusive or.
\<close>
theorem isValidSet_validity_law:
  assumes "\<forall>v \<in> set L. in_int32 v" and "in_int32 w"
  shows "(isValidSet L \<longleftrightarrow> 3 \<le> length L \<and> XOR_all L = 0)
       \<and> (\<forall>L'. mset L' = mset L \<longrightarrow> isValidSet L' = isValidSet L)
       \<and> (isValidSet (replicate (2 * k) w @ L) \<longleftrightarrow> 3 \<le> 2 * k + length L \<and> XOR_all L = 0)"
proof (intro conjI allI impI)
  show "isValidSet L \<longleftrightarrow> 3 \<le> length L \<and> XOR_all L = 0"
    using assms(1) by (rule isValidSet_iff)
  show "isValidSet L' = isValidSet L" if "mset L' = mset L" for L'
    using that by (rule isValidSet_perm)
  have "\<forall>v \<in> set (replicate (2 * k) w @ L). in_int32 v"
    using assms by auto
  then show "isValidSet (replicate (2 * k) w @ L) \<longleftrightarrow> 3 \<le> 2 * k + length L \<and> XOR_all L = 0"
    by (simp add: isValidSet_iff XOR_all_append XOR_all_replicate_even)
qed

theorem isValidSet_validity_law_witness:
  "list_all in_int32 [17, 5, 20] \<and> in_int32 5
   \<and> isValidSet [17, 5, 20] \<and> isValidSet [20, 5, 17] \<and> isValidSet [5, 5, 17, 5, 20]"
proof -
  have h: "\<forall>v \<in> set [17, 5, 20 :: int]. in_int32 v" "in_int32 5"
    by (simp_all add: in_int32_def)
  note law = isValidSet_validity_law [OF h, of 1]
  have v: "isValidSet [17, 5, 20]"
    using law by (simp add: XOR_all_def)
  have "mset [20, 5, 17 :: int] = mset [17, 5, 20]" by simp
  with law have "isValidSet [20, 5, 17] = isValidSet [17, 5, 20]" by blast
  moreover have "isValidSet [5, 5, 17, 5, 20]"
    using law by (simp add: XOR_all_def numeral_2_eq_2)
  ultimately show ?thesis using h v by simp
qed

subsection \<open>Seven cards always contain a set\<close>

lemma XOR_all_pick_xor:
  "XOR_all (pick vs (m1 XOR m2)) = XOR_all (pick vs m1) XOR XOR_all (pick vs m2)"
proof (induction vs arbitrary: m1 m2)
  case Nil
  show ?case by (simp add: XOR_all_def)
next
  case (Cons v vs)
  have half: "(m1 XOR m2) div 2 = (m1 div 2) XOR (m2 div 2)"
    by (rule bit_eqI) (simp add: bit_xor_iff flip: bit_Suc)
  have cons: "XOR_all (v # ys) = v XOR XOR_all ys" for ys
    by (simp add: XOR_all_def)
  show ?case
    by (simp add: half Cons.IH cons even_xor_iff xor.assoc xor.left_commute)
qed

lemma pick_nonempty: "0 < m \<Longrightarrow> m < 2 ^ length xs \<Longrightarrow> pick xs m \<noteq> []"
proof (induction xs arbitrary: m)
  case Nil
  then show ?case by simp
next
  case (Cons x xs)
  show ?case
  proof (cases "odd m")
    case True
    then show ?thesis by simp
  next
    case False
    then have "0 < m div 2" "m div 2 < 2 ^ length xs"
      using Cons.prems by auto
    then show ?thesis using False Cons.IH by simp
  qed
qed

lemma XOR_all_card_range:
  "\<forall>v \<in> set ys. 0 \<le> v \<and> v < 2 ^ 6 \<Longrightarrow> 0 \<le> XOR_all ys \<and> XOR_all ys < 2 ^ 6"
proof (induction ys)
  case Nil
  show ?case by (simp add: XOR_all_def)
next
  case (Cons y ys)
  then have y: "0 \<le> y" "y < 2 ^ 6" and r: "0 \<le> XOR_all ys" "XOR_all ys < 2 ^ 6"
    by simp_all
  have "XOR_all (y # ys) = y XOR XOR_all ys" by (simp add: XOR_all_def)
  moreover have "y XOR XOR_all ys < 2 ^ 6" using y r by (intro XOR_upper)
  moreover have "0 \<le> y XOR XOR_all ys" using y r by simp
  ultimately show ?case by simp
qed

lemma set_pick_subset: "set (pick xs m) \<subseteq> set xs"
  by (induction xs arbitrary: m) auto

lemma xor_eq_0_int: "(a::int) XOR b = 0 \<Longrightarrow> a = b"
proof -
  assume "a XOR b = 0"
  then have "a XOR (a XOR b) = a XOR 0" by simp
  then show ?thesis by (simp flip: xor.assoc)
qed

lemma dependent_subset:
  assumes len: "length vs = 7" and rng: "\<forall>v \<in> set vs. 1 \<le> v \<and> v \<le> 63"
  shows "\<exists>m. 0 < m \<and> m < 2 ^ 7 \<and> XOR_all (pick vs m) = 0"
proof -
  let ?g = "\<lambda>m. XOR_all (pick vs m)"
  let ?A = "{0 ..< (2::int) ^ 7}"
  have img: "?g ` ?A \<subseteq> {0 ..< 2 ^ 6}"
  proof
    fix y assume "y \<in> ?g ` ?A"
    then obtain m where y: "y = XOR_all (pick vs m)" by blast
    have "\<forall>v \<in> set (pick vs m). 0 \<le> v \<and> v < 2 ^ 6"
      using rng set_pick_subset [of vs m] by fastforce
    then show "y \<in> {0 ..< 2 ^ 6}"
      using XOR_all_card_range [of "pick vs m"] y by simp
  qed
  have "card (?g ` ?A) \<le> card {0 ..< (2::int) ^ 6}"
    by (rule card_mono [OF _ img]) simp
  then have "card (?g ` ?A) < card ?A" by simp
  then have "\<not> inj_on ?g ?A" by (rule pigeonhole)
  then obtain m1 m2 where m: "m1 \<in> ?A" "m2 \<in> ?A" "m1 \<noteq> m2" "?g m1 = ?g m2"
    unfolding inj_on_def by blast
  let ?m = "m1 XOR m2"
  have "?m \<noteq> 0" using m(3) xor_eq_0_int by blast
  moreover have "0 \<le> ?m" using m(1,2) by (intro XOR_lower) simp_all
  moreover have "?m < 2 ^ 7" using m(1,2) by (intro XOR_upper) simp_all
  moreover have "?g ?m = 0" using m(4) by (simp add: XOR_all_pick_xor)
  ultimately have "0 < ?m \<and> ?m < 2 ^ 7 \<and> ?g ?m = 0" by linarith
  then show ?thesis by (rule exI [of _ ?m])
qed

text \<open>
  Claim C8 (Fano-plane guarantee). For every list of exactly 7 pairwise distinct card
  values, each in 1..63, \<open>hasValidSet\<close> returns true. Seven vectors of a 6-dimensional
  space over GF(2) are dependent (\<open>dependent_subset\<close>), and a dependent group of distinct
  non-zero values has at least 3 members.
\<close>
theorem hasValidSet_seven_cards:
  assumes len: "length vs = 7" and dist: "distinct vs"
    and rng: "\<forall>v \<in> set vs. 1 \<le> v \<and> v \<le> 63"
  shows "hasValidSet vs"
proof -
  obtain m where m: "0 < m" "m < 2 ^ 7" "XOR_all (pick vs m) = 0"
    using dependent_subset [OF len rng] by blast
  let ?ys = "pick vs m"
  have sub: "?ys \<in> set (subseqs vs)"
    using m by (simp add: pick_subseqs len)
  have dys: "distinct ?ys" using sub dist by (rule subseqs_distinctD)
  have rys: "\<forall>v \<in> set ?ys. 1 \<le> v \<and> v \<le> 63"
    using rng set_pick_subset [of vs m] by blast
  have ne: "?ys \<noteq> []" using m by (intro pick_nonempty) (simp_all add: len)
  have "3 \<le> length ?ys"
  proof (rule ccontr)
    assume "\<not> 3 \<le> length ?ys"
    then consider a where "?ys = [a]" | a b where "?ys = [a, b]"
      using ne by (cases ?ys rule: list.exhaust; cases "tl ?ys"; cases "tl (tl ?ys)") auto
    then show False
    proof cases
      case 1
      with m(3) rys show ?thesis by (simp add: XOR_all_def)
    next
      case 2
      with m(3) have "a XOR b = 0" by (simp add: XOR_all_def)
      then have "a = b" by (rule xor_eq_0_int)
      with dys 2 show ?thesis by simp
    qed
  qed
  moreover have "\<forall>v \<in> set ?ys. in_int32 v"
    using rys by (auto simp: in_int32_def)
  ultimately have "isValidSet ?ys" using m(3) by (simp add: isValidSet_iff)
  with sub show ?thesis
    using hasValidSet_iff_subseqs [of vs] len by auto
qed

theorem hasValidSet_seven_cards_witness:
  "length [1, 2, 4, 8, 16, 32, 63 :: int] = 7 \<and> distinct [1, 2, 4, 8, 16, 32, 63 :: int]
   \<and> list_all (\<lambda>v. 1 \<le> v \<and> v \<le> 63) [1, 2, 4, 8, 16, 32, 63 :: int]
   \<and> hasValidSet [1, 2, 4, 8, 16, 32, 63]"
proof -
  have h: "length [1, 2, 4, 8, 16, 32, 63 :: int] = 7" "distinct [1, 2, 4, 8, 16, 32, 63 :: int]"
    "\<forall>v \<in> set [1, 2, 4, 8, 16, 32, 63 :: int]. 1 \<le> v \<and> v \<le> 63"
    by simp_all
  from hasValidSet_seven_cards [OF h] h show ?thesis by simp
qed

section \<open>Deck service and array helpers\<close>

lemma findIndex_None: "findIndex P xs = None \<longleftrightarrow> (\<forall>x \<in> set xs. \<not> P x)"
  by (induction xs) auto

lemma findIndex_Some:
  "findIndex P xs = Some i \<Longrightarrow> i < length xs \<and> P (xs ! i) \<and> (\<forall>j < i. \<not> P (xs ! j))"
proof (induction xs arbitrary: i)
  case Nil
  then show ?case by simp
next
  case (Cons x xs)
  show ?case
  proof (cases "P x")
    case True
    with Cons.prems show ?thesis by simp
  next
    case False
    with Cons.prems obtain i' where i': "findIndex P xs = Some i'" "i = Suc i'"
      by auto
    from Cons.IH [OF i'(1)] False i'(2) show ?thesis
      by (auto simp: nth_Cons split: nat.splits)
  qed
qed

lemma findIndex_update:
  "findIndex P xs = Some i \<Longrightarrow> P y \<Longrightarrow> findIndex P (xs[i := y]) = Some i"
proof (induction xs arbitrary: i)
  case Nil
  then show ?case by simp
next
  case (Cons x xs)
  show ?case
  proof (cases "P x")
    case True
    with Cons.prems show ?thesis by simp
  next
    case False
    with Cons.prems obtain i' where i': "findIndex P xs = Some i'" "i = Suc i'"
      by auto
    with Cons.IH [OF i'(1) Cons.prems(2)] False show ?thesis by simp
  qed
qed

lemma dealCards_loop_eq:
  "dealCards_loop n dk dealt =
     (dealt @ rev (drop (length dk - n) dk), take (length dk - n) dk)"
proof (induction n arbitrary: dk dealt)
  case 0
  show ?case by simp
next
  case (Suc n)
  show ?case
  proof (cases "dk = []")
    case True
    then show ?thesis by simp
  next
    case False
    let ?k = "length dk - Suc n"
    have dk: "dk = butlast dk @ [last dk]" using False by simp
    have k: "?k \<le> length (butlast dk)" by simp
    have "drop ?k dk = drop ?k (butlast dk) @ [last dk]"
      by (subst dk) (simp only: drop_append, use k in simp)
    moreover have "take ?k dk = take ?k (butlast dk)"
      by (subst dk) (simp only: take_append, use k in simp)
    moreover have "length (butlast dk) - n = ?k" by simp
    ultimately show ?thesis using False by (simp add: Suc.IH)
  qed
qed

lemma dealCards_eq:
  "dealCards dk cnt = (rev (drop (length dk - nat cnt) dk), take (length dk - nat cnt) dk)"
  by (simp add: dealCards_def dealCards_loop_eq)

lemma dealCards_length:
  "length (fst (dealCards dk cnt)) + length (snd (dealCards dk cnt)) = length dk"
  by (simp add: dealCards_eq)

lemma dealCards_length_fst: "length (fst (dealCards dk cnt)) = min (nat cnt) (length dk)"
  by (simp add: dealCards_eq)

lemma dealCards_mset:
  "mset (fst (dealCards dk cnt)) + mset (snd (dealCards dk cnt)) = mset dk"
proof -
  have "mset (take (length dk - nat cnt) dk @ drop (length dk - nat cnt) dk) = mset dk"
    by simp
  then show ?thesis by (simp add: dealCards_eq add.commute del: append_take_drop_id)
qed

lemma shuffle_loop_mset:
  "i < length xs \<or> i = 0 \<Longrightarrow> mset (shuffle_loop rnd k i xs) = mset xs"
proof (induction i arbitrary: k xs)
  case 0
  show ?case by simp
next
  case (Suc i)
  let ?j = "rnd k mod (Suc i + 1)"
  have i: "Suc i < length xs" using Suc.prems by simp
  have j: "?j < length xs" using i by (simp add: less_le_trans [OF mod_less_divisor])
  have "mset (xs[Suc i := xs ! ?j, ?j := xs ! Suc i]) = mset xs"
    using j i by (rule mset_swap)
  moreover have "mset (shuffle_loop rnd (k + 1) i (xs[Suc i := xs ! ?j, ?j := xs ! Suc i]))
        = mset (xs[Suc i := xs ! ?j, ?j := xs ! Suc i])"
    using i by (intro Suc.IH) simp
  ultimately show ?case by (simp add: Let_def)
qed

lemma shuffle_mset: "mset (shuffle rnd xs) = mset xs"
  unfolding shuffle_def by (rule shuffle_loop_mset) (cases xs, simp_all)

lemma shuffle_length: "length (shuffle rnd xs) = length xs"
  using shuffle_mset [of rnd xs] by (rule mset_eq_length)

lemma shuffle_set: "set (shuffle rnd xs) = set xs"
  using shuffle_mset [of rnd xs] by (rule mset_eq_setD)

section \<open>Claiming a set\<close>

lemma claimSet_fail:
  "\<not> claimSucceeds s playerId cardIds \<Longrightarrow> claimSet gen rnd s playerId cardIds = (s, 0)"
  by (auto simp: claimSet_def claimSucceeds_def claimedInstances_def Let_def
      split: option.splits)

lemma claimSet_success:
  assumes ok: "claimSucceeds s playerId cardIds"
    and idx: "findIndex (\<lambda>p. player_id p = playerId) (players s) = Some playerIndex"
  shows "claimSet gen rnd s playerId cardIds =
     (s\<lparr>deck := snd (claimDealt gen rnd s cardIds),
        activeCards := claimRemaining s cardIds @ fst (claimDealt gen rnd s cardIds),
        players := map (\<lambda>(i, p).
                      if i = playerIndex
                      then p\<lparr>claimedCards := claimedCards p @ claimedInstances s cardIds,
                             selectedCardIds := [],
                             score := score p +
                               (if (case scoringMode (settings s) of
                                      None \<Rightarrow> Cards | Some m \<Rightarrow> m) = Cards
                                then int (length (claimedInstances s cardIds)) else 1)\<rparr>
                      else p\<lparr>selectedCardIds :=
                               filter (\<lambda>i. i \<notin> set cardIds) (selectedCardIds p)\<rparr>)
                   (enumerate 0 (players s)),
        turnTimeRemainingMs := map_option durationMs (turnTimer (settings s))\<rparr>,
      if (case scoringMode (settings s) of None \<Rightarrow> Cards | Some m \<Rightarrow> m) = Cards
      then int (length (claimedInstances s cardIds)) else 1)"
  using ok idx
  unfolding claimSet_def claimSucceeds_def claimDealt_def claimDeck_def claimRemaining_def
    claimedInstances_def
  by (simp add: Let_def split_beta)

lemma claimSucceeds_length: "claimSucceeds s playerId cardIds \<Longrightarrow> 3 \<le> length cardIds"
  by (auto simp: claimSucceeds_def isValidSet_def MIN_SET_SIZE_def split: if_splits)

lemma claimSet_points:
  "snd (claimSet gen rnd s playerId cardIds) =
     (if claimSucceeds s playerId cardIds
      then (if (case scoringMode (settings s) of None \<Rightarrow> Cards | Some m \<Rightarrow> m) = Cards
            then int (length cardIds) else 1)
      else 0)"
proof (cases "claimSucceeds s playerId cardIds")
  case False
  then show ?thesis by (simp add: claimSet_fail)
next
  case True
  then obtain i where "findIndex (\<lambda>p. player_id p = playerId) (players s) = Some i"
    by (auto simp: claimSucceeds_def)
  from claimSet_success [OF True this] True show ?thesis
    by (simp add: claimSucceeds_def)
qed

lemma claimSet_points_nonzero:
  "snd (claimSet gen rnd s playerId cardIds) \<noteq> 0 \<longleftrightarrow> claimSucceeds s playerId cardIds"
  using claimSucceeds_length [of s playerId cardIds]
  by (auto simp: claimSet_points)

text \<open>
  Claim C9 (turn-timer reset on any claim). Every successful \<open>claimSet\<close>, by whichever
  player and whatever the timer showed before, sets \<open>turnTimeRemainingMs\<close> of the
  resulting state to the configured duration of the turn timer, or to null when no
  turn timer is configured. A claim is successful when it passes the three early
  returns, which is when it awards points (\<open>claimSet_points_nonzero\<close>).
\<close>
theorem claimSet_resets_turn_timer:
  assumes ok: "claimSucceeds s playerId cardIds"
  shows "turnTimeRemainingMs (fst (claimSet gen rnd s playerId cardIds))
           = (case turnTimer (settings s) of None \<Rightarrow> None | Some cfg \<Rightarrow> Some (durationMs cfg))"
proof -
  obtain i where "findIndex (\<lambda>p. player_id p = playerId) (players s) = Some i"
    using ok by (auto simp: claimSucceeds_def)
  from claimSet_success [OF ok this] show ?thesis
    by (simp split: option.splits)
qed

lemmas ex_defs = exState_def exTable_def exDeck_def exPlayer_def exSettings_def

lemma isValidSet_1_2_3: "isValidSet [1, 2, 3]"
  by (simp add: isValidSet_def MIN_SET_SIZE_def js_xor_def toInt32_def)

lemma exState_claimSucceeds:
  "claimSucceeds exState ''player2'' [''card1'', ''card2'', ''card3'']"
  by (simp add: claimSucceeds_def claimedInstances_def List.map_filter_def ex_defs
      isValidSet_1_2_3)

theorem claimSet_resets_turn_timer_witness:
  "claimSucceeds exState ''player2'' [''card1'', ''card2'', ''card3'']
   \<and> turnTimeRemainingMs exState = Some 12000
   \<and> turnTimeRemainingMs
        (fst (claimSet exGen exRnd exState ''player2'' [''card1'', ''card2'', ''card3'']))
       = Some 30000"
  using claimSet_resets_turn_timer [OF exState_claimSucceeds, of exGen exRnd]
    exState_claimSucceeds
  by (simp add: exState_def exSettings_def)

section \<open>Toggling a selection\<close>

lemma toggleCardSelection_eq:
  assumes idx: "findIndex (\<lambda>p. player_id p = playerId) (players s) = Some i"
    and tbl: "list_ex (\<lambda>c. card_id c = cardId) (activeCards s)"
  shows "toggleCardSelection s playerId cardId =
     s\<lparr>players := (players s)[i := (players s ! i)\<lparr>selectedCardIds :=
         (if cardId \<in> set (selectedCardIds (players s ! i))
          then filter (\<lambda>x. x \<noteq> cardId) (selectedCardIds (players s ! i))
          else selectedCardIds (players s ! i) @ [cardId])\<rparr>]\<rparr>"
  using idx tbl by (simp add: toggleCardSelection_def Let_def)

lemma toggle_twice_eq:
  assumes idx: "findIndex (\<lambda>p. player_id p = playerId) (players s) = Some i"
    and tbl: "list_ex (\<lambda>c. card_id c = cardId) (activeCards s)"
  shows "toggleCardSelection (toggleCardSelection s playerId cardId) playerId cardId =
     s\<lparr>players := (players s)[i := (players s ! i)\<lparr>selectedCardIds :=
         (if cardId \<in> set (selectedCardIds (players s ! i))
          then filter (\<lambda>x. x \<noteq> cardId) (selectedCardIds (players s ! i)) @ [cardId]
          else selectedCardIds (players s ! i))\<rparr>]\<rparr>"
proof -
  let ?P = "players s ! i"
  let ?sel = "selectedCardIds ?P"
  let ?sel1 = "if cardId \<in> set ?sel then filter (\<lambda>x. x \<noteq> cardId) ?sel else ?sel @ [cardId]"
  let ?s1 = "s\<lparr>players := (players s)[i := ?P\<lparr>selectedCardIds := ?sel1\<rparr>]\<rparr>"
  have i: "i < length (players s)" and pid: "player_id ?P = playerId"
    using findIndex_Some [OF idx] by simp_all
  have s1: "toggleCardSelection s playerId cardId = ?s1"
    using idx tbl by (rule toggleCardSelection_eq)
  have idx1: "findIndex (\<lambda>p. player_id p = playerId) (players ?s1) = Some i"
    using findIndex_update [OF idx, of "?P\<lparr>selectedCardIds := ?sel1\<rparr>"] pid by simp
  have tbl1: "list_ex (\<lambda>c. card_id c = cardId) (activeCards ?s1)"
    using tbl by simp
  have P1: "players ?s1 ! i = ?P\<lparr>selectedCardIds := ?sel1\<rparr>"
    using i by simp
  have flt: "filter (\<lambda>x. x \<noteq> cardId) ?sel = ?sel" if "cardId \<notin> set ?sel"
    using that by (auto simp: filter_id_conv)
  show ?thesis
    unfolding s1
    by (subst toggleCardSelection_eq [OF idx1 tbl1], unfold P1) (simp add: flt)
qed

text \<open>
  Claim C5 (toggling twice), as amended. For every game state \<open>s\<close>, player of \<open>s\<close>
  and card on the table: if the card is not in the player's selection, toggling it twice
  returns exactly \<open>s\<close>; if the card is in the selection, toggling it twice returns
  \<open>s\<close> with that card moved to the end of the player's \<open>selectedCardIds\<close> and nothing
  else changed.
\<close>
theorem toggleCardSelection_twice:
  assumes idx: "findIndex (\<lambda>p. player_id p = playerId) (players s) = Some i"
    and tbl: "list_ex (\<lambda>c. card_id c = cardId) (activeCards s)"
  shows "(cardId \<notin> set (selectedCardIds (players s ! i)) \<longrightarrow>
            toggleCardSelection (toggleCardSelection s playerId cardId) playerId cardId = s)
       \<and> (cardId \<in> set (selectedCardIds (players s ! i)) \<longrightarrow>
            toggleCardSelection (toggleCardSelection s playerId cardId) playerId cardId =
              s\<lparr>players := (players s)[i := (players s ! i)\<lparr>selectedCardIds :=
                   filter (\<lambda>x. x \<noteq> cardId) (selectedCardIds (players s ! i)) @ [cardId]\<rparr>]\<rparr>)"
  by (simp add: toggle_twice_eq [OF idx tbl])


theorem toggleCardSelection_twice_witness:
  "toggleCardSelection (toggleCardSelection exState ''player1'' ''card4'') ''player1'' ''card4''
     = exState"
proof -
  have idx: "findIndex (\<lambda>p. player_id p = ''player1'') (players exState) = Some 0"
    by (simp add: ex_defs)
  have tbl: "list_ex (\<lambda>c. card_id c = ''card4'') (activeCards exState)"
    by (simp add: ex_defs)
  have "''card4'' \<notin> set (selectedCardIds (players exState ! 0))"
    by (simp add: ex_defs)
  with toggleCardSelection_twice [OF idx tbl] show ?thesis by blast
qed

theorem toggleCardSelection_twice_counterexample:
  "toggleCardSelection (toggleCardSelection exState ''player1'' ''card1'') ''player1'' ''card1''
     \<noteq> exState
   \<and> selectedCardIds (players exState ! 0) = [''card1'', ''card2'', ''card3'']
   \<and> selectedCardIds (players (toggleCardSelection
        (toggleCardSelection exState ''player1'' ''card1'') ''player1'' ''card1'') ! 0)
       = [''card2'', ''card3'', ''card1'']"
proof -
  have idx: "findIndex (\<lambda>p. player_id p = ''player1'') (players exState) = Some 0"
    by (simp add: ex_defs)
  have tbl: "list_ex (\<lambda>c. card_id c = ''card1'') (activeCards exState)"
    by (simp add: ex_defs)
  have sel: "selectedCardIds (players exState ! 0) = [''card1'', ''card2'', ''card3'']"
    by (simp add: ex_defs)
  have sel2: "selectedCardIds (players (toggleCardSelection
        (toggleCardSelection exState ''player1'' ''card1'') ''player1'' ''card1'') ! 0)
       = [''card2'', ''card3'', ''card1'']"
    unfolding toggle_twice_eq [OF idx tbl] by (simp add: ex_defs)
  from sel sel2 have "toggleCardSelection
      (toggleCardSelection exState ''player1'' ''card1'') ''player1'' ''card1'' \<noteq> exState"
    by auto
  with sel sel2 show ?thesis by simp
qed

section \<open>End of the game\<close>

lemma hasValidSet_validSetExists:
  "length vs \<le> 30 \<Longrightarrow> hasValidSet vs = validSetExists vs"
  by (simp add: hasValidSet_iff_subseqs validSetExists_def)

lemma not_validSetExists_1_4_16: "\<not> validSetExists [1, 4, 16]"
  by (simp add: validSetExists_def isValidSet_def MIN_SET_SIZE_def js_xor_def toInt32_def)

lemma validSetExists_1_2_3: "validSetExists [1, 2, 3]"
  by (simp add: validSetExists_def isValidSet_def MIN_SET_SIZE_def js_xor_def toInt32_def)

text \<open>
  Claim C7 (\<open>checkGameEnd\<close>). For every game state, whose table holds at most 7
  cards by the data model (the proof needs at most 30, the range of the 32-bit masks),
  \<open>checkGameEnd\<close> returns \<open>timer_expired\<close> if a configured timer is at most 0;
  otherwise, when \<open>infiniteDeck\<close> is not set, \<open>deck_empty\<close> exactly when the deck is
  empty and no valid set exists among the active values; otherwise none. With an empty
  deck, the values 1, 4, 16 give \<open>deck_empty\<close> and the values 1, 2, 3 give none.
\<close>
theorem checkGameEnd_semantics:
  assumes "length (activeCards s) \<le> 30"
  shows "checkGameEnd s =
      (if (\<exists>t. gameTimeRemainingMs s = Some t \<and> t \<le> 0)
            \<or> (\<exists>t. turnTimeRemainingMs s = Some t \<and> t \<le> 0)
       then Some timer_expired
       else if \<not> infiniteDeck (settings s) \<and> deck s = []
                 \<and> \<not> validSetExists (map card_value (activeCards s))
       then Some deck_empty
       else None)
    \<and> (gameTimeRemainingMs s = None \<and> turnTimeRemainingMs s = None
          \<and> \<not> infiniteDeck (settings s) \<and> deck s = []
          \<and> map card_value (activeCards s) = [1, 4, 16]
        \<longrightarrow> checkGameEnd s = Some deck_empty)
    \<and> (gameTimeRemainingMs s = None \<and> turnTimeRemainingMs s = None
          \<and> \<not> infiniteDeck (settings s) \<and> deck s = []
          \<and> map card_value (activeCards s) = [1, 2, 3]
        \<longrightarrow> checkGameEnd s = None)"
proof -
  have hv: "hasValidSet (map card_value (activeCards s))
              = validSetExists (map card_value (activeCards s))"
    using assms by (intro hasValidSet_validSetExists) simp
  have main: "checkGameEnd s =
      (if (\<exists>t. gameTimeRemainingMs s = Some t \<and> t \<le> 0)
            \<or> (\<exists>t. turnTimeRemainingMs s = Some t \<and> t \<le> 0)
       then Some timer_expired
       else if \<not> infiniteDeck (settings s) \<and> deck s = []
                 \<and> \<not> validSetExists (map card_value (activeCards s))
       then Some deck_empty
       else None)"
    unfolding checkGameEnd_def hv
    by (auto split: option.splits)
  show ?thesis
    using not_validSetExists_1_4_16 validSetExists_1_2_3 by (simp add: main)
qed


theorem checkGameEnd_semantics_witness:
  "checkGameEnd (exState\<lparr>deck := [], turnTimeRemainingMs := None,
       activeCards := [\<lparr>card_id = ''card1'', card_value = 1\<rparr>,
                       \<lparr>card_id = ''card4'', card_value = 4\<rparr>,
                       \<lparr>card_id = ''card6'', card_value = 16\<rparr>]\<rparr>) = Some deck_empty
   \<and> checkGameEnd (exState\<lparr>deck := [], turnTimeRemainingMs := None,
       activeCards := [\<lparr>card_id = ''card1'', card_value = 1\<rparr>,
                       \<lparr>card_id = ''card2'', card_value = 2\<rparr>,
                       \<lparr>card_id = ''card3'', card_value = 3\<rparr>]\<rparr>) = None
   \<and> checkGameEnd (exState\<lparr>turnTimeRemainingMs := Some 0\<rparr>) = Some timer_expired
   \<and> checkGameEnd exState = None"
proof -
  let ?s1 = "exState\<lparr>deck := [], turnTimeRemainingMs := None,
       activeCards := [\<lparr>card_id = ''card1'', card_value = 1\<rparr>,
                       \<lparr>card_id = ''card4'', card_value = 4\<rparr>,
                       \<lparr>card_id = ''card6'', card_value = 16\<rparr>]\<rparr>"
  let ?s2 = "exState\<lparr>deck := [], turnTimeRemainingMs := None,
       activeCards := [\<lparr>card_id = ''card1'', card_value = 1\<rparr>,
                       \<lparr>card_id = ''card2'', card_value = 2\<rparr>,
                       \<lparr>card_id = ''card3'', card_value = 3\<rparr>]\<rparr>"
  have "checkGameEnd ?s1 = Some deck_empty"
    using checkGameEnd_semantics [of ?s1] by (simp add: ex_defs not_validSetExists_1_4_16)
  moreover have "checkGameEnd ?s2 = None"
    using checkGameEnd_semantics [of ?s2] by (simp add: ex_defs validSetExists_1_2_3)
  moreover have "checkGameEnd (exState\<lparr>turnTimeRemainingMs := Some 0\<rparr>) = Some timer_expired"
    using checkGameEnd_semantics [of "exState\<lparr>turnTimeRemainingMs := Some 0\<rparr>"]
    by (simp add: ex_defs)
  moreover have "checkGameEnd exState = None"
    using checkGameEnd_semantics [of exState] by (simp add: ex_defs)
  ultimately show ?thesis by simp
qed

section \<open>Lobby manager\<close>

lemma joinLobby_member_not_full:
  assumes "lobbies lobbyCode = Some lobby"
    and "int (length (lobbyPlayers lobby)) < maxPlayers"
    and "find (\<lambda>p. player_id p = playerId) (lobbyPlayers lobby) = Some player"
  shows "joinLobby maxPlayers lobbies lobbyCode playerId playerName = (Inr (lobby, player), lobbies)"
proof -
  have "list_ex (\<lambda>p. player_id p = playerId) (lobbyPlayers lobby)"
    using assms(3) by (auto simp: list_ex_iff find_Some_iff)
  then show ?thesis using assms by (simp add: joinLobby_def)
qed

lemma joinLobby_member_full:
  assumes "lobbies lobbyCode = Some lobby"
    and "maxPlayers \<le> int (length (lobbyPlayers lobby))"
  shows "joinLobby maxPlayers lobbies lobbyCode playerId playerName
           = (Inl (LOBBY_FULL, ''Lobby is full''), lobbies)"
  using assms by (simp add: joinLobby_def)

lemma exFullLobbies_players:
  "map_option (map player_id \<circ> lobbyPlayers) (exFullLobbies ''ROOM42'')
     = Some [''player1'', ''player2'', ''player3'', ''player4'', ''player5'', ''player6'',
             ''player7'', ''player8'']"
  by code_simp

text \<open>
  Claim C6 (idempotent rejoin). \<open>joinLobby\<close> returns the existing membership of a
  player who is already in the lobby only while the lobby is below its capacity
  (\<open>joinLobby_member_not_full\<close>). The capacity check comes first, so in a lobby that
  holds the maximum number of players a member's rejoin is answered with
  \<open>LOBBY_FULL\<close> (\<open>joinLobby_member_full\<close>). The theorem evaluates the code for
  \<open>player3\<close> rejoining a lobby of 8 with capacity 8.
\<close>
theorem joinLobby_full_lobby_rejects_member:
  "map_option (map player_id \<circ> lobbyPlayers) (exFullLobbies ''ROOM42'')
     = Some [''player1'', ''player2'', ''player3'', ''player4'', ''player5'', ''player6'',
             ''player7'', ''player8'']
   \<and> joinLobby 8 exFullLobbies ''ROOM42'' ''player3'' ''Guest''
     = (Inl (LOBBY_FULL, ''Lobby is full''), exFullLobbies)"
proof -
  obtain lobby where l: "exFullLobbies ''ROOM42'' = Some lobby"
      "map player_id (lobbyPlayers lobby) = [''player1'', ''player2'', ''player3'', ''player4'',
         ''player5'', ''player6'', ''player7'', ''player8'']"
    using exFullLobbies_players by auto
  have "length (map player_id (lobbyPlayers lobby)) = 8"
    unfolding l(2) by simp
  then have "(8::int) \<le> int (length (lobbyPlayers lobby))" by simp
  from joinLobby_member_full [of exFullLobbies "''ROOM42''" lobby 8, OF l(1) this]
    exFullLobbies_players show ?thesis by simp
qed

section \<open>Game manager: claims and the pending set\<close>

lemma GameManager_claimSet_fail:
  assumes "games lobbyCode = Some game"
    and "\<not> claimSucceeds (state game) playerId cardIds"
  shows "GameManager_claimSet gen rnd games lobbyCode playerId cardIds
           = (Inl (NOT_A_VALID_SET, ''Not a valid set''), games)"
  using assms by (simp add: GameManager_claimSet_def claimSet_fail)

lemma stopGameLoop_lookup:
  "stopGameLoop games lobbyCode lobbyCode
     = map_option (\<lambda>g. g\<lparr>loopInterval := None\<rparr>) (games lobbyCode)"
  by (cases "games lobbyCode") (auto simp: stopGameLoop_def)

lemma GameManager_claimSet_ok:
  assumes g: "games lobbyCode = Some game"
    and ok: "claimSucceeds (state game) playerId cardIds"
  shows "\<exists>payload game'.
           fst (GameManager_claimSet gen rnd games lobbyCode playerId cardIds) = Inr payload
         \<and> res_pointsAwarded payload = snd (claimSet gen rnd (state game) playerId cardIds)
         \<and> snd (GameManager_claimSet gen rnd games lobbyCode playerId cardIds) lobbyCode = Some game'
         \<and> pendingSet game' = pendingSet game
         \<and> (state game' = fst (claimSet gen rnd (state game) playerId cardIds)
              \<or> (\<exists>reason. state game' =
                    endGame (fst (claimSet gen rnd (state game) playerId cardIds)) reason))"
proof -
  have nz: "snd (claimSet gen rnd (state game) playerId cardIds) \<noteq> 0"
    using ok by (simp add: claimSet_points_nonzero)
  show ?thesis
  proof (cases "checkGameEnd (fst (claimSet gen rnd (state game) playerId cardIds))")
    case None
    then show ?thesis
      using g nz by (simp add: GameManager_claimSet_def Let_def)
  next
    case (Some reason)
    then show ?thesis
      using g nz by (auto simp: GameManager_claimSet_def Let_def stopGameLoop_lookup)
  qed
qed

text \<open>
  Claim C4 (pending-slot consumption), as amended. When \<open>confirmSet\<close> is called by the
  player who holds the pending set, the pending slot is cleared exactly when the
  delegated claim succeeds. When the claim fails, \<open>confirmSet\<close> returns the
  \<open>NOT_A_VALID_SET\<close> error before the line that clears the slot: the registry is
  unchanged and the pending set stays in place.
\<close>
theorem confirmSet_pending_slot:
  assumes g: "games lobbyCode = Some game"
    and p: "pendingSet game = Some pending"
    and a: "pendingPlayerId pending = playerId"
  shows "(claimSucceeds (state game) playerId (pendingCardIds pending) \<longrightarrow>
            (\<exists>payload. fst (GameManager_confirmSet gen rnd games lobbyCode playerId) = Inr payload)
            \<and> map_option pendingSet
                 (snd (GameManager_confirmSet gen rnd games lobbyCode playerId) lobbyCode)
                = Some None)
       \<and> (\<not> claimSucceeds (state game) playerId (pendingCardIds pending) \<longrightarrow>
            GameManager_confirmSet gen rnd games lobbyCode playerId
              = (Inl (NOT_A_VALID_SET, ''Not a valid set''), games)
            \<and> map_option pendingSet
                 (snd (GameManager_confirmSet gen rnd games lobbyCode playerId) lobbyCode)
                = Some (Some pending))"
proof (intro conjI impI)
  assume ok: "claimSucceeds (state game) playerId (pendingCardIds pending)"
  obtain payload game' where r:
    "fst (GameManager_claimSet gen rnd games lobbyCode playerId (pendingCardIds pending))
       = Inr payload"
    "snd (GameManager_claimSet gen rnd games lobbyCode playerId (pendingCardIds pending)) lobbyCode
       = Some game'"
    using GameManager_claimSet_ok [where games = games and lobbyCode = lobbyCode, OF g ok]
    by blast
  have eq: "GameManager_confirmSet gen rnd games lobbyCode playerId =
      (Inr payload,
       (snd (GameManager_claimSet gen rnd games lobbyCode playerId (pendingCardIds pending)))
         (lobbyCode \<mapsto> game'\<lparr>pendingSet := None\<rparr>))"
    using g p a r by (simp add: GameManager_confirmSet_def split_beta)
  show "\<exists>payload. fst (GameManager_confirmSet gen rnd games lobbyCode playerId) = Inr payload"
    by (simp add: eq)
  show "map_option pendingSet
          (snd (GameManager_confirmSet gen rnd games lobbyCode playerId) lobbyCode) = Some None"
    by (simp add: eq)
next
  assume no: "\<not> claimSucceeds (state game) playerId (pendingCardIds pending)"
  show eq: "GameManager_confirmSet gen rnd games lobbyCode playerId
           = (Inl (NOT_A_VALID_SET, ''Not a valid set''), games)"
    using g p a GameManager_claimSet_fail [where games = games and lobbyCode = lobbyCode, OF g no]
    by (simp add: GameManager_confirmSet_def)
  show "map_option pendingSet
          (snd (GameManager_confirmSet gen rnd games lobbyCode playerId) lobbyCode)
        = Some (Some pending)"
    by (simp add: eq g p)
qed

lemma exGames_invalid_pending:
  "\<not> claimSucceeds (exState\<lparr>settings := exSettings\<lparr>setFoundBehavior := click\<rparr>\<rparr>)
       ''player1'' [''card1'', ''card2'', ''card4'']"
  by (simp add: claimSucceeds_def claimedInstances_def List.map_filter_def ex_defs
      isValidSet_def MIN_SET_SIZE_def js_xor_def toInt32_def)

lemma exGames_valid_pending:
  "claimSucceeds (exState\<lparr>settings := exSettings\<lparr>setFoundBehavior := click\<rparr>\<rparr>)
       ''player1'' [''card1'', ''card2'', ''card3'']"
  by (simp add: claimSucceeds_def claimedInstances_def List.map_filter_def ex_defs
      isValidSet_1_2_3)

theorem confirmSet_pending_slot_counterexample:
  "fst (GameManager_confirmSet exGen exRnd
          (setPendingSet 1000 exGames ''ROOM42'' ''player1'' [''card1'', ''card2'', ''card4''])
          ''ROOM42'' ''player1'')
     = Inl (NOT_A_VALID_SET, ''Not a valid set'')
   \<and> map_option pendingSet
        (snd (GameManager_confirmSet exGen exRnd
               (setPendingSet 1000 exGames ''ROOM42'' ''player1'' [''card1'', ''card2'', ''card4''])
               ''ROOM42'' ''player1'') ''ROOM42'')
     = Some (Some \<lparr>pendingPlayerId = ''player1'',
                    pendingCardIds = [''card1'', ''card2'', ''card4''],
                    pendingTimestamp = 1000\<rparr>)"
proof -
  let ?games = "setPendingSet 1000 exGames ''ROOM42'' ''player1'' [''card1'', ''card2'', ''card4'']"
  let ?game = "\<lparr>state = exState\<lparr>settings := exSettings\<lparr>setFoundBehavior := click\<rparr>\<rparr>,
                 pendingSet = Some \<lparr>pendingPlayerId = ''player1'',
                    pendingCardIds = [''card1'', ''card2'', ''card4''],
                    pendingTimestamp = 1000\<rparr>, loopInterval = None\<rparr>"
  have g: "?games ''ROOM42'' = Some ?game"
    by (simp add: exGames_def createGame_def setPendingSet_def)
  have "GameManager_confirmSet exGen exRnd ?games ''ROOM42'' ''player1''
          = (Inl (NOT_A_VALID_SET, ''Not a valid set''), ?games)"
    using g exGames_invalid_pending
    by (simp add: GameManager_confirmSet_def GameManager_claimSet_def claimSet_fail)
  then show ?thesis using g by simp
qed

theorem confirmSet_pending_slot_witness:
  "(\<exists>payload. fst (GameManager_confirmSet exGen exRnd
          (setPendingSet 1000 exGames ''ROOM42'' ''player1'' [''card1'', ''card2'', ''card3''])
          ''ROOM42'' ''player1'') = Inr payload)
   \<and> map_option pendingSet
        (snd (GameManager_confirmSet exGen exRnd
               (setPendingSet 1000 exGames ''ROOM42'' ''player1'' [''card1'', ''card2'', ''card3''])
               ''ROOM42'' ''player1'') ''ROOM42'')
     = Some None"
proof -
  let ?games = "setPendingSet 1000 exGames ''ROOM42'' ''player1'' [''card1'', ''card2'', ''card3'']"
  let ?pending = "\<lparr>pendingPlayerId = ''player1'',
                    pendingCardIds = [''card1'', ''card2'', ''card3''],
                    pendingTimestamp = 1000\<rparr>"
  let ?game = "\<lparr>state = exState\<lparr>settings := exSettings\<lparr>setFoundBehavior := click\<rparr>\<rparr>,
                 pendingSet = Some ?pending, loopInterval = None\<rparr>"
  have g: "?games ''ROOM42'' = Some ?game"
    by (simp add: exGames_def createGame_def setPendingSet_def)
  have p: "pendingSet ?game = Some ?pending" and a: "pendingPlayerId ?pending = ''player1''"
    by simp_all
  from confirmSet_pending_slot [of ?games "''ROOM42''" ?game ?pending "''player1''" exGen exRnd,
      OF g p a] exGames_valid_pending
  show ?thesis by simp
qed

section \<open>Two players claim the same cards\<close>

lemma find_card_None: "find (\<lambda>c. card_id c = i) xs = None \<longleftrightarrow> i \<notin> set (map card_id xs)"
  by (auto simp: find_None_iff)

lemma claimedInstances_none:
  "set cardIds \<inter> set (map card_id (activeCards s)) = {} \<Longrightarrow> claimedInstances s cardIds = []"
proof -
  assume d: "set cardIds \<inter> set (map card_id (activeCards s)) = {}"
  have "find (\<lambda>c. card_id c = i) (activeCards s) = None" if "i \<in> set cardIds" for i
    using that d by (subst find_card_None) blast
  then show ?thesis
    by (simp add: claimedInstances_def List.map_filter_def filter_empty_conv)
qed

lemma map_card_id_returned:
  "map card_id (map (\<lambda>(k, c). \<lparr>card_id = gen k, card_value = card_value c\<rparr>) (enumerate n cs))
     = map gen [n..<n + length cs]"
proof -
  have "map card_id (map (\<lambda>(k, c). \<lparr>card_id = gen k, card_value = card_value c\<rparr>) (enumerate n cs))
        = map gen (map fst (enumerate n cs))"
    by (simp only: map_map comp_def split_beta CardInstance.simps)
  then show ?thesis by simp
qed

lemma returnCardsToDeck_mset:
  "mset (map card_id (returnCardsToDeck gen rnd dk cs))
     = mset (map card_id dk) + mset (map gen [0..<length cs])"
proof -
  let ?new = "map (\<lambda>(k, c). \<lparr>card_id = gen k, card_value = card_value c\<rparr>) (enumerate 0 cs)"
  have "mset (map card_id (shuffle rnd (dk @ ?new))) = image_mset card_id (mset (shuffle rnd (dk @ ?new)))"
    by simp
  also have "\<dots> = image_mset card_id (mset (dk @ ?new))"
    by (simp only: shuffle_mset)
  also have "\<dots> = mset (map card_id dk) + mset (map card_id ?new)"
    by (simp only: mset_append image_mset_union mset_map)
  also have "map card_id ?new = map gen [0..<length cs]"
    using map_card_id_returned [of gen 0 cs] by simp
  finally show ?thesis by (simp add: returnCardsToDeck_def Let_def)
qed

lemma returnCardsToDeck_length:
  "length (returnCardsToDeck gen rnd dk cs) = length dk + length cs"
  by (simp add: returnCardsToDeck_def Let_def shuffle_length)

lemma claimDeck_ids:
  "set (map card_id (claimDeck gen rnd s cardIds))
     \<subseteq> set (map card_id (deck s))
        \<union> (if infiniteDeck (settings s)
           then set (map gen [0..<length (claimedInstances s cardIds)]) else {})"
proof (cases "infiniteDeck (settings s)")
  case True
  have "set (map card_id (returnCardsToDeck gen rnd (deck s) (claimedInstances s cardIds)))
      = set_mset (mset (map card_id (returnCardsToDeck gen rnd (deck s) (claimedInstances s cardIds))))"
    by simp
  also have "\<dots> = set (map card_id (deck s)) \<union> set (map gen [0..<length (claimedInstances s cardIds)])"
    unfolding returnCardsToDeck_mset by simp
  finally show ?thesis using True by (simp add: claimDeck_def)
next
  case False
  then show ?thesis by (simp add: claimDeck_def)
qed

lemma dealCards_fst_subset: "set (fst (dealCards dk cnt)) \<subseteq> set dk"
  by (simp add: dealCards_eq set_drop_subset)

lemma claimRemaining_ids: "set (map card_id (claimRemaining s cardIds)) \<inter> set cardIds = {}"
  by (auto simp: claimRemaining_def)

lemma claimSet_active_ids:
  assumes ok: "claimSucceeds s playerId cardIds"
    and dk: "set cardIds \<inter> set (map card_id (deck s)) = {}"
    and fresh: "infiniteDeck (settings s) \<longrightarrow> set cardIds \<inter> set (map gen [0..<length cardIds]) = {}"
  shows "set cardIds \<inter> set (map card_id (activeCards (fst (claimSet gen rnd s playerId cardIds)))) = {}"
proof -
  obtain i where idx: "findIndex (\<lambda>p. player_id p = playerId) (players s) = Some i"
    using ok by (auto simp: claimSucceeds_def)
  have len: "length (claimedInstances s cardIds) = length cardIds"
    using ok by (simp add: claimSucceeds_def)
  have "set (map card_id (fst (claimDealt gen rnd s cardIds)))
          \<subseteq> set (map card_id (claimDeck gen rnd s cardIds))"
    unfolding claimDealt_def using dealCards_fst_subset by (metis image_mono set_map)
  also note claimDeck_ids
  finally have "set cardIds \<inter> set (map card_id (fst (claimDealt gen rnd s cardIds))) = {}"
    using dk fresh unfolding len by (cases "infiniteDeck (settings s)") (simp_all, blast+)
  moreover have "activeCards (fst (claimSet gen rnd s playerId cardIds))
      = claimRemaining s cardIds @ fst (claimDealt gen rnd s cardIds)"
    by (simp add: claimSet_success [OF ok idx])
  ultimately show ?thesis using claimRemaining_ids [of s cardIds] by auto
qed

lemma claimSet_players:
  assumes ok: "claimSucceeds s playerId cardIds"
    and idx: "findIndex (\<lambda>p. player_id p = playerId) (players s) = Some i"
    and j: "j < length (players s)"
  shows "players (fst (claimSet gen rnd s playerId cardIds)) ! j =
     (if j = i
      then (players s ! j)\<lparr>claimedCards := claimedCards (players s ! j) @ claimedInstances s cardIds,
             selectedCardIds := [],
             score := score (players s ! j) + snd (claimSet gen rnd s playerId cardIds)\<rparr>
      else (players s ! j)\<lparr>selectedCardIds :=
             filter (\<lambda>i. i \<notin> set cardIds) (selectedCardIds (players s ! j))\<rparr>)"
  using j by (simp add: claimSet_success [OF ok idx] nth_enumerate_eq)

lemma claimSucceeds_cong:
  "players s' = players s \<Longrightarrow> activeCards s' = activeCards s
     \<Longrightarrow> claimSucceeds s' playerId cardIds = claimSucceeds s playerId cardIds"
  by (simp add: claimSucceeds_def claimedInstances_def)

lemma claimSucceeds_off_table:
  assumes "set cardIds \<inter> set (map card_id (activeCards s)) = {}"
  shows "\<not> claimSucceeds s playerId cardIds"
proof
  assume ok: "claimSucceeds s playerId cardIds"
  then have "3 \<le> length cardIds" by (rule claimSucceeds_length)
  moreover have "length (claimedInstances s cardIds) = length cardIds"
    using ok by (simp add: claimSucceeds_def)
  ultimately show False using claimedInstances_none [OF assms] by simp
qed

text \<open>
  Claim C1 (first writer wins). In a state where players A and B are both present and
  the card ids \<open>cardIds\<close> are on the table and form a valid set (in the claim: three
  cards that both have selected), with card ids unique (no card of the deck and no
  re-minted id carries a claimed id): the claim of A succeeds, awards points and appends
  the claimed cards to A's pile; the claimed ids are no longer on the table; the claim of
  B that follows returns the state unchanged with 0 points, which the manager reports as
  \<open>NOT_A_VALID_SET\<close> leaving the registry unchanged; and the claim of A has removed
  the claimed ids from the selection of B.
\<close>
theorem claimSet_first_writer_wins:
  fixes gen gen' :: IdGen and rnd rnd' :: Rand and s :: GameState and games :: Games
  assumes ab: "A \<noteq> B"
    and ia: "findIndex (\<lambda>p. player_id p = A) (players s) = Some ia"
    and ib: "findIndex (\<lambda>p. player_id p = B) (players s) = Some ib"
    and ok: "claimSucceeds s A cardIds"
    and dk: "set cardIds \<inter> set (map card_id (deck s)) = {}"
    and fresh: "infiniteDeck (settings s)
                  \<longrightarrow> set cardIds \<inter> set (map gen [0..<length cardIds]) = {}"
    and g: "games lobbyCode = Some game" and st: "state game = s"
  defines "s1 \<equiv> fst (claimSet gen rnd s A cardIds)"
  defines "games1 \<equiv> snd (GameManager_claimSet gen rnd games lobbyCode A cardIds)"
  shows "0 < snd (claimSet gen rnd s A cardIds)
       \<and> snd (claimSet gen rnd s A cardIds)
           = (if scoringMode (settings s) = Some Sets then 1 else int (length cardIds))
       \<and> claimedCards (players s1 ! ia)
           = claimedCards (players s ! ia) @ claimedInstances s cardIds
       \<and> set cardIds \<inter> set (map card_id (activeCards s1)) = {}
       \<and> claimSet gen' rnd' s1 B cardIds = (s1, 0)
       \<and> set cardIds \<inter> set (selectedCardIds (players s1 ! ib)) = {}
       \<and> (selectedCardIds (players s ! ib) = cardIds \<longrightarrow> selectedCardIds (players s1 ! ib) = [])
       \<and> (\<exists>payload. fst (GameManager_claimSet gen rnd games lobbyCode A cardIds) = Inr payload
              \<and> 0 < res_pointsAwarded payload)
       \<and> GameManager_claimSet gen' rnd' games1 lobbyCode B cardIds
           = (Inl (NOT_A_VALID_SET, ''Not a valid set''), games1)"
proof -
  have len3: "3 \<le> length cardIds" using ok by (rule claimSucceeds_length)
  have pts: "snd (claimSet gen rnd s A cardIds)
           = (if scoringMode (settings s) = Some Sets then 1 else int (length cardIds))"
  proof (cases "scoringMode (settings s)")
    case None
    then show ?thesis using ok by (simp add: claimSet_points)
  next
    case (Some m)
    then show ?thesis using ok by (cases m) (simp_all add: claimSet_points)
  qed
  have pos: "0 < snd (claimSet gen rnd s A cardIds)"
    unfolding pts using len3 by auto
  have la: "ia < length (players s)" and lb: "ib < length (players s)"
    and pa: "player_id (players s ! ia) = A" and pb: "player_id (players s ! ib) = B"
    using findIndex_Some [OF ia] findIndex_Some [OF ib] by simp_all
  have ne: "ib \<noteq> ia" using ab pa pb by auto
  have cl: "claimedCards (players s1 ! ia)
           = claimedCards (players s ! ia) @ claimedInstances s cardIds"
    unfolding s1_def by (simp add: claimSet_players [OF ok ia la])
  have selB: "selectedCardIds (players s1 ! ib)
           = filter (\<lambda>i. i \<notin> set cardIds) (selectedCardIds (players s ! ib))"
    unfolding s1_def using ne by (simp add: claimSet_players [OF ok ia lb])
  have off: "set cardIds \<inter> set (map card_id (activeCards s1)) = {}"
    unfolding s1_def using ok dk fresh by (rule claimSet_active_ids)
  have failB: "claimSet gen' rnd' s1 B cardIds = (s1, 0)"
    using claimSucceeds_off_table [OF off] by (rule claimSet_fail)
  obtain payload game' where m:
    "fst (GameManager_claimSet gen rnd games lobbyCode A cardIds) = Inr payload"
    "res_pointsAwarded payload = snd (claimSet gen rnd s A cardIds)"
    "games1 lobbyCode = Some game'"
    "state game' = s1 \<or> (\<exists>reason. state game' = endGame s1 reason)"
    using GameManager_claimSet_ok [where games = games and lobbyCode = lobbyCode
        and game = game and playerId = A and cardIds = cardIds and gen = gen and rnd = rnd]
      g ok
    unfolding st s1_def games1_def by blast
  have "activeCards (state game') = activeCards s1"
    using m(4) by (auto simp: endGame_def)
  then have "\<not> claimSucceeds (state game') B cardIds"
    using off by (intro claimSucceeds_off_table) simp
  then have failM: "GameManager_claimSet gen' rnd' games1 lobbyCode B cardIds
           = (Inl (NOT_A_VALID_SET, ''Not a valid set''), games1)"
    using GameManager_claimSet_fail [where games = games1 and lobbyCode = lobbyCode] m(3)
    by blast
  have "\<exists>payload. fst (GameManager_claimSet gen rnd games lobbyCode A cardIds) = Inr payload
              \<and> 0 < res_pointsAwarded payload"
    using m(1,2) pos by simp
  moreover have "set cardIds \<inter> set (selectedCardIds (players s1 ! ib)) = {}"
    unfolding selB by auto
  moreover have "selectedCardIds (players s ! ib) = cardIds \<longrightarrow> selectedCardIds (players s1 ! ib) = []"
    unfolding selB by (simp add: filter_empty_conv)
  ultimately show ?thesis
    using pos pts cl off failB failM by blast
qed

theorem claimSet_first_writer_wins_witness:
  "snd (claimSet exGen exRnd exState ''player1'' [''card1'', ''card2'', ''card3'']) = 3
   \<and> map card_id (claimedCards (players
        (fst (claimSet exGen exRnd exState ''player1'' [''card1'', ''card2'', ''card3''])) ! 0))
       = [''card1'', ''card2'', ''card3'']
   \<and> claimSet exGen' exRnd
        (fst (claimSet exGen exRnd exState ''player1'' [''card1'', ''card2'', ''card3'']))
        ''player2'' [''card1'', ''card2'', ''card3'']
       = (fst (claimSet exGen exRnd exState ''player1'' [''card1'', ''card2'', ''card3'']), 0)
   \<and> selectedCardIds (players exState ! 1) = [''card1'', ''card2'', ''card3'']
   \<and> selectedCardIds (players
        (fst (claimSet exGen exRnd exState ''player1'' [''card1'', ''card2'', ''card3''])) ! 1) = []
   \<and> fst (GameManager_claimSet exGen' exRnd
        (snd (GameManager_claimSet exGen exRnd (createGame Map.empty ''ROOM42'' exState)
               ''ROOM42'' ''player1'' [''card1'', ''card2'', ''card3'']))
        ''ROOM42'' ''player2'' [''card1'', ''card2'', ''card3''])
       = Inl (NOT_A_VALID_SET, ''Not a valid set'')"
proof -
  let ?ids = "[''card1'', ''card2'', ''card3'']"
  let ?games = "createGame Map.empty ''ROOM42'' exState"
  let ?game = "\<lparr>state = exState, pendingSet = None, loopInterval = None\<rparr>"
  have ab: "''player1'' \<noteq> ''player2''" by simp
  have ia: "findIndex (\<lambda>p. player_id p = ''player1'') (players exState) = Some 0"
    and ib: "findIndex (\<lambda>p. player_id p = ''player2'') (players exState) = Some 1"
    by (simp_all add: ex_defs)
  have ok: "claimSucceeds exState ''player1'' ?ids"
    by (simp add: claimSucceeds_def claimedInstances_def List.map_filter_def ex_defs
        isValidSet_1_2_3)
  have dk: "set ?ids \<inter> set (map card_id (deck exState)) = {}"
    by (simp add: ex_defs)
  have fresh: "infiniteDeck (settings exState)
                 \<longrightarrow> set ?ids \<inter> set (map exGen [0..<length ?ids]) = {}"
    by (simp add: ex_defs)
  have g: "?games ''ROOM42'' = Some ?game" by (simp add: createGame_def)
  have st: "state ?game = exState" by simp
  have ci: "claimedInstances exState ?ids = take 3 exTable"
    by (simp add: claimedInstances_def List.map_filter_def ex_defs)
  have selB: "selectedCardIds (players exState ! 1) = ?ids" by (simp add: ex_defs)
  note law = claimSet_first_writer_wins [where games = ?games and lobbyCode = "''ROOM42''"
      and gen' = exGen' and rnd' = exRnd and rnd = exRnd, OF ab ia ib ok dk fresh g st]
  have "snd (claimSet exGen exRnd exState ''player1'' ?ids) = 3"
    using law by (simp add: ex_defs)
  moreover have "map card_id (claimedCards (players
        (fst (claimSet exGen exRnd exState ''player1'' ?ids)) ! 0)) = ?ids"
    using law by (simp add: ci) (simp add: ex_defs)
  ultimately show ?thesis using law selB by simp
qed

section \<open>Conservation of the cards\<close>

subsection \<open>Counting the cards of a claim\<close>

lemma claimedInstances_all_found:
  assumes "length (claimedInstances s cardIds) = length cardIds"
  shows "set cardIds \<subseteq> set (map card_id (activeCards s))"
proof -
  let ?f = "\<lambda>i. find (\<lambda>c. card_id c = i) (activeCards s)"
  have "length (filter (\<lambda>i. ?f i \<noteq> None) cardIds) = length cardIds"
    using assms by (simp add: claimedInstances_def List.map_filter_def)
  have "?f i \<noteq> None" if "i \<in> set cardIds" for i
  proof (rule ccontr)
    assume "\<not> ?f i \<noteq> None"
    with that have "length (filter (\<lambda>i. ?f i \<noteq> None) cardIds) < length cardIds"
      by (intro length_filter_less) auto
    with \<open>length (filter (\<lambda>i. ?f i \<noteq> None) cardIds) = length cardIds\<close>
    show False by simp
  qed
  then have "\<forall>i \<in> set cardIds. ?f i \<noteq> None" by blast
  then show ?thesis
    by (auto simp: find_None_iff)
qed

lemma length_claimRemaining:
  assumes da: "distinct (map card_id (activeCards s))"
    and dc: "distinct cardIds"
    and all: "length (claimedInstances s cardIds) = length cardIds"
  shows "length (claimRemaining s cardIds) + length cardIds = length (activeCards s)"
proof -
  let ?in = "filter (\<lambda>c. card_id c \<in> set cardIds) (activeCards s)"
  have sub: "set cardIds \<subseteq> set (map card_id (activeCards s))"
    using all by (rule claimedInstances_all_found)
  have "distinct (map card_id ?in)" using da by (rule distinct_map_filter)
  then have "card (set (map card_id ?in)) = length (map card_id ?in)"
    by (rule distinct_card)
  then have "length ?in = card (set (map card_id ?in))"
    by (simp only: length_map)
  also have "set (map card_id ?in) = set cardIds" using sub by auto
  also have "card (set cardIds) = length cardIds" using dc by (rule distinct_card)
  finally have "length ?in = length cardIds" .
  moreover have "length ?in + length (claimRemaining s cardIds) = length (activeCards s)"
    unfolding claimRemaining_def by (rule sum_length_filter_compl)
  ultimately show ?thesis by simp
qed

lemma sum_claimed_enumerate:
  assumes h: "\<And>i p. length (claimedCards (h (i, p)))
                       = length (claimedCards p) + (if i = k then c else 0)"
  shows "sum_list (map (\<lambda>x. length (claimedCards (h x))) (enumerate n ps))
       = sum_list (map (\<lambda>p. length (claimedCards p)) ps)
           + (if n \<le> k \<and> k < n + length ps then c else 0)"
proof (induction ps arbitrary: n)
  case Nil
  show ?case by auto
next
  case (Cons p ps)
  show ?case
    by (cases "n = k") (auto simp: h Cons.IH)
qed

lemma claimSet_sum_claimed:
  assumes ok: "claimSucceeds s playerId cardIds"
  shows "sum_list (map (\<lambda>p. length (claimedCards p))
           (players (fst (claimSet gen rnd s playerId cardIds))))
         = sum_list (map (\<lambda>p. length (claimedCards p)) (players s)) + length cardIds"
proof -
  obtain i where idx: "findIndex (\<lambda>p. player_id p = playerId) (players s) = Some i"
    using ok by (auto simp: claimSucceeds_def)
  have i: "i < length (players s)" using findIndex_Some [OF idx] by simp
  have len: "length (claimedInstances s cardIds) = length cardIds"
    using ok by (simp add: claimSucceeds_def)
  have "fst (claimSet gen rnd s playerId cardIds) =
      s\<lparr>deck := snd (claimDealt gen rnd s cardIds),
        activeCards := claimRemaining s cardIds @ fst (claimDealt gen rnd s cardIds),
        players := map (\<lambda>(i', p).
                      if i' = i
                      then p\<lparr>claimedCards := claimedCards p @ claimedInstances s cardIds,
                             selectedCardIds := [],
                             score := score p +
                               (if (case scoringMode (settings s) of
                                      None \<Rightarrow> Cards | Some m \<Rightarrow> m) = Cards
                                then int (length (claimedInstances s cardIds)) else 1)\<rparr>
                      else p\<lparr>selectedCardIds :=
                               filter (\<lambda>i. i \<notin> set cardIds) (selectedCardIds p)\<rparr>)
                   (enumerate 0 (players s)),
        turnTimeRemainingMs := map_option durationMs (turnTimer (settings s))\<rparr>"
    by (simp only: claimSet_success [OF ok idx] fst_conv)
  then have "players (fst (claimSet gen rnd s playerId cardIds)) =
      map (\<lambda>(i', p).
                      if i' = i
                      then p\<lparr>claimedCards := claimedCards p @ claimedInstances s cardIds,
                             selectedCardIds := [],
                             score := score p +
                               (if (case scoringMode (settings s) of
                                      None \<Rightarrow> Cards | Some m \<Rightarrow> m) = Cards
                                then int (length (claimedInstances s cardIds)) else 1)\<rparr>
                      else p\<lparr>selectedCardIds :=
                               filter (\<lambda>i. i \<notin> set cardIds) (selectedCardIds p)\<rparr>)
                   (enumerate 0 (players s))" (is "_ = ?new")
    by simp
  then have "sum_list (map (\<lambda>p. length (claimedCards p))
           (players (fst (claimSet gen rnd s playerId cardIds))))
      = sum_list (map (\<lambda>x. length (claimedCards
          ((\<lambda>(i', p).
                      if i' = i
                      then p\<lparr>claimedCards := claimedCards p @ claimedInstances s cardIds,
                             selectedCardIds := [],
                             score := score p +
                               (if (case scoringMode (settings s) of
                                      None \<Rightarrow> Cards | Some m \<Rightarrow> m) = Cards
                                then int (length (claimedInstances s cardIds)) else 1)\<rparr>
                      else p\<lparr>selectedCardIds :=
                               filter (\<lambda>i. i \<notin> set cardIds) (selectedCardIds p)\<rparr>) x)))
            (enumerate 0 (players s)))"
    by (simp only: map_map comp_def)
  also have "\<dots> = sum_list (map (\<lambda>p. length (claimedCards p)) (players s))
       + (if 0 \<le> i \<and> i < 0 + length (players s)
          then length (claimedInstances s cardIds) else 0)"
    by (rule sum_claimed_enumerate) simp
  finally show ?thesis using i len by simp
qed

lemma length_claimDeck:
  "length (claimDeck gen rnd s cardIds)
     = length (deck s) + (if infiniteDeck (settings s) then length (claimedInstances s cardIds) else 0)"
  by (simp add: claimDeck_def returnCardsToDeck_length)

lemma claimSet_deck_table:
  assumes ok: "claimSucceeds s playerId cardIds"
  shows "length (deck (fst (claimSet gen rnd s playerId cardIds)))
           + length (activeCards (fst (claimSet gen rnd s playerId cardIds)))
         = length (deck s) + length (claimRemaining s cardIds)
             + (if infiniteDeck (settings s) then length cardIds else 0)"
proof -
  obtain i where idx: "findIndex (\<lambda>p. player_id p = playerId) (players s) = Some i"
    using ok by (auto simp: claimSucceeds_def)
  have len: "length (claimedInstances s cardIds) = length cardIds"
    using ok by (simp add: claimSucceeds_def)
  have "length (fst (claimDealt gen rnd s cardIds)) + length (snd (claimDealt gen rnd s cardIds))
          = length (claimDeck gen rnd s cardIds)"
    unfolding claimDealt_def by (rule dealCards_length)
  then have "length (fst (claimDealt gen rnd s cardIds)) + length (snd (claimDealt gen rnd s cardIds))
          = length (deck s) + (if infiniteDeck (settings s) then length cardIds else 0)"
    unfolding length_claimDeck len .
  moreover have "deck (fst (claimSet gen rnd s playerId cardIds)) = snd (claimDealt gen rnd s cardIds)"
    and "activeCards (fst (claimSet gen rnd s playerId cardIds))
           = claimRemaining s cardIds @ fst (claimDealt gen rnd s cardIds)"
    by (simp_all add: claimSet_success [OF ok idx])
  ultimately show ?thesis by simp
qed

lemma claimSet_settings: "settings (fst (claimSet gen rnd s playerId cardIds)) = settings s"
proof (cases "claimSucceeds s playerId cardIds")
  case False
  then show ?thesis by (simp add: claimSet_fail)
next
  case True
  then obtain i where idx: "findIndex (\<lambda>p. player_id p = playerId) (players s) = Some i"
    by (auto simp: claimSucceeds_def)
  show ?thesis unfolding claimSet_success [OF True idx] by simp
qed

text \<open>The total after a successful claim, when the ids on the table and in the claim are unique.\<close>
lemma claimSet_totalCards:
  assumes ok: "claimSucceeds s playerId cardIds"
    and da: "distinct (map card_id (activeCards s))"
    and dc: "distinct cardIds"
  shows "totalCards (fst (claimSet gen rnd s playerId cardIds))
           = totalCards s + (if infiniteDeck (settings s) then length cardIds else 0)"
proof -
  have len: "length (claimedInstances s cardIds) = length cardIds"
    using ok by (simp add: claimSucceeds_def)
  have "length (claimRemaining s cardIds) + length cardIds = length (activeCards s)"
    using da dc len by (rule length_claimRemaining)
  then show ?thesis
    unfolding totalCards_def
    using claimSet_deck_table [OF ok, of gen rnd] claimSet_sum_claimed [OF ok, of gen rnd]
    by simp
qed

subsection \<open>Unique card ids\<close>

lemma dealCards_ids_mset:
  "mset (map card_id (snd (dealCards dk cnt) @ fst (dealCards dk cnt))) = mset (map card_id dk)"
proof -
  have "mset (snd (dealCards dk cnt) @ fst (dealCards dk cnt)) = mset dk"
    using dealCards_mset [of dk cnt] by (simp add: add.commute)
  then have "image_mset card_id (mset (snd (dealCards dk cnt) @ fst (dealCards dk cnt)))
               = image_mset card_id (mset dk)"
    by (simp only:)
  then show ?thesis by (simp only: mset_map)
qed

lemma createDeck_ids: "map card_id (createDeck gen) = map gen [0..<DECK_SIZE]"
  by (simp add: createDeck_def comp_def)

lemma createShuffledDeck_ids_mset:
  "mset (map card_id (createShuffledDeck gen rnd)) = mset (map gen [0..<DECK_SIZE])"
proof -
  have "mset (map card_id (createShuffledDeck gen rnd))
          = image_mset card_id (mset (shuffle rnd (createDeck gen)))"
    by (simp add: createShuffledDeck_def)
  also have "\<dots> = image_mset card_id (mset (createDeck gen))"
    by (simp only: shuffle_mset)
  also have "\<dots> = mset (map gen [0..<DECK_SIZE])"
    by (metis mset_map createDeck_ids)
  finally show ?thesis .
qed

lemma length_createShuffledDeck: "length (createShuffledDeck gen rnd) = DECK_SIZE"
  by (simp add: createShuffledDeck_def shuffle_length createDeck_def)

lemma fresh_deal_distinct:
  assumes "distinct (map gen [0..<DECK_SIZE])"
  shows "distinct (map card_id (snd (dealCards (createShuffledDeck gen rnd) cnt)
                                  @ fst (dealCards (createShuffledDeck gen rnd) cnt)))"
proof -
  have "mset (map card_id (snd (dealCards (createShuffledDeck gen rnd) cnt)
                                  @ fst (dealCards (createShuffledDeck gen rnd) cnt)))
          = mset (map gen [0..<DECK_SIZE])"
    by (simp only: dealCards_ids_mset createShuffledDeck_ids_mset)
  from mset_eq_imp_distinct_iff [OF this] assms show ?thesis by simp
qed

lemma fresh_deal_length:
  "length (snd (dealCards (createShuffledDeck gen rnd) cnt))
     + length (fst (dealCards (createShuffledDeck gen rnd) cnt)) = 63"
  using dealCards_length [of "createShuffledDeck gen rnd" cnt]
  by (simp add: length_createShuffledDeck DECK_SIZE_def)

lemma claimSet_distinct_ids:
  assumes ok: "claimSucceeds s playerId cardIds"
    and d: "distinct (map card_id (deck s @ activeCards s))"
    and fresh: "infiniteDeck (settings s) \<longrightarrow> freshIds gen (length cardIds) s"
  shows "distinct (map card_id (deck (fst (claimSet gen rnd s playerId cardIds))
                                  @ activeCards (fst (claimSet gen rnd s playerId cardIds))))"
proof -
  obtain i where idx: "findIndex (\<lambda>p. player_id p = playerId) (players s) = Some i"
    using ok by (auto simp: claimSucceeds_def)
  have len: "length (claimedInstances s cardIds) = length cardIds"
    using ok by (simp add: claimSucceeds_def)
  let ?D = "claimDealt gen rnd s cardIds"
  let ?R = "claimRemaining s cardIds"
  have dR: "distinct (map card_id (deck s @ ?R))"
    using d unfolding claimRemaining_def by (auto simp: distinct_map_filter)
  have m1: "mset (map card_id (snd ?D @ fst ?D)) = mset (map card_id (claimDeck gen rnd s cardIds))"
    unfolding claimDealt_def by (rule dealCards_ids_mset)
  have "mset (map card_id (snd ?D @ ?R @ fst ?D))
          = mset (map card_id (snd ?D @ fst ?D)) + mset (map card_id ?R)"
    by simp
  also have "\<dots> = mset (map card_id (claimDeck gen rnd s cardIds)) + mset (map card_id ?R)"
    by (simp only: m1)
  finally have m2: "mset (map card_id (snd ?D @ ?R @ fst ?D))
          = mset (map card_id (claimDeck gen rnd s cardIds)) + mset (map card_id ?R)" .
  have "distinct (map card_id (snd ?D @ ?R @ fst ?D))"
  proof (cases "infiniteDeck (settings s)")
    case False
    then have "mset (map card_id (snd ?D @ ?R @ fst ?D)) = mset (map card_id (deck s @ ?R))"
      using m2 by (simp add: claimDeck_def)
    from mset_eq_imp_distinct_iff [OF this] dR show ?thesis by simp
  next
    case True
    with fresh have f: "distinct (map gen [0..<length cardIds])"
      "set (map gen [0..<length cardIds]) \<inter> set (map card_id (deck s @ activeCards s)) = {}"
      by (simp_all add: freshIds_def)
    have "mset (map card_id (claimDeck gen rnd s cardIds))
            = mset (map card_id (deck s)) + mset (map gen [0..<length cardIds])"
      by (simp only: claimDeck_def True if_True returnCardsToDeck_mset len)
    then have "mset (map card_id (snd ?D @ ?R @ fst ?D))
            = mset (map gen [0..<length cardIds] @ map card_id (deck s @ ?R))"
      using m2 by simp
    moreover have "distinct (map gen [0..<length cardIds] @ map card_id (deck s @ ?R))"
      using f dR unfolding claimRemaining_def by auto
    ultimately show ?thesis
      using mset_eq_imp_distinct_iff by blast
  qed
  then show ?thesis by (simp add: claimSet_success [OF ok idx])
qed

lemma sum_claimed_update:
  assumes "i < length ps" and "claimedCards q = claimedCards (ps ! i)"
  shows "sum_list (map (\<lambda>p. length (claimedCards p)) (ps[i := q]))
           = sum_list (map (\<lambda>p. length (claimedCards p)) ps)"
proof -
  have "map (\<lambda>p. length (claimedCards p)) (ps[i := q])
          = (map (\<lambda>p. length (claimedCards p)) ps)[i := length (claimedCards (ps ! i))]"
    using assms by (simp add: map_update)
  also have "\<dots> = map (\<lambda>p. length (claimedCards p)) ps"
    using assms(1) by (metis length_map list_update_id nth_map)
  finally show ?thesis by simp
qed

lemma cardInvariant_same_cards:
  assumes "cardInvariant s"
    and "deck s' = deck s" "activeCards s' = activeCards s" "settings s' = settings s"
    and "sum_list (map (\<lambda>p. length (claimedCards p)) (players s'))
           = sum_list (map (\<lambda>p. length (claimedCards p)) (players s))"
  shows "cardInvariant s'"
  using assms by (simp add: cardInvariant_def totalCards_def split: if_splits)

lemma cardInvariant_toggle: "cardInvariant s \<Longrightarrow> cardInvariant (toggleCardSelection s playerId cardId)"
proof (cases "findIndex (\<lambda>p. player_id p = playerId) (players s)")
  case None
  assume "cardInvariant s"
  with None show ?thesis by (simp add: toggleCardSelection_def)
next
  case (Some i)
  assume inv: "cardInvariant s"
  have i: "i < length (players s)" using findIndex_Some [OF Some] by simp
  show ?thesis
  proof (cases "list_ex (\<lambda>c. card_id c = cardId) (activeCards s)")
    case False
    with Some inv show ?thesis by (simp add: toggleCardSelection_def)
  next
    case True
    show ?thesis
      unfolding toggleCardSelection_eq [OF Some True]
      by (rule cardInvariant_same_cards [OF inv]) (simp_all add: sum_claimed_update i)
  qed
qed

lemma cardInvariant_clear: "cardInvariant s \<Longrightarrow> cardInvariant (clearSelection s playerId)"
proof (cases "findIndex (\<lambda>p. player_id p = playerId) (players s)")
  case None
  assume "cardInvariant s"
  with None show ?thesis by (simp add: clearSelection_def)
next
  case (Some i)
  assume inv: "cardInvariant s"
  have i: "i < length (players s)" using findIndex_Some [OF Some] by simp
  show ?thesis
    unfolding clearSelection_def Some option.case
    by (rule cardInvariant_same_cards [OF inv]) (simp_all add: sum_claimed_update i)
qed

lemma cardInvariant_claim:
  assumes inv: "cardInvariant s" and dc: "distinct cardIds"
    and fresh: "infiniteDeck (settings s) \<longrightarrow> freshIds gen (length cardIds) s"
  shows "cardInvariant (fst (claimSet gen rnd s playerId cardIds))"
proof (cases "claimSucceeds s playerId cardIds")
  case False
  then show ?thesis using inv by (simp add: claimSet_fail)
next
  case ok: True
  have d: "distinct (map card_id (deck s @ activeCards s))"
    using inv by (simp add: cardInvariant_def)
  then have da: "distinct (map card_id (activeCards s))" by simp
  have len: "length (claimedInstances s cardIds) = length cardIds"
    using ok by (simp add: claimSucceeds_def)
  have rem: "length (claimRemaining s cardIds) + length cardIds = length (activeCards s)"
    using da dc len by (rule length_claimRemaining)
  have 1: "distinct (map card_id (deck (fst (claimSet gen rnd s playerId cardIds))
                                  @ activeCards (fst (claimSet gen rnd s playerId cardIds))))"
    using ok d fresh by (rule claimSet_distinct_ids)
  show ?thesis
  proof (cases "infiniteDeck (settings s)")
    case True
    then have "length (deck s) + length (activeCards s) = 63"
      using inv by (simp add: cardInvariant_def)
    then have "length (deck (fst (claimSet gen rnd s playerId cardIds)))
           + length (activeCards (fst (claimSet gen rnd s playerId cardIds))) = 63"
      using claimSet_deck_table [OF ok, of gen rnd] rem True by simp
    with 1 True show ?thesis
      unfolding cardInvariant_def claimSet_settings by simp
  next
    case False
    then have "totalCards s = 63" using inv by (simp add: cardInvariant_def)
    then have "totalCards (fst (claimSet gen rnd s playerId cardIds)) = 63"
      using claimSet_totalCards [OF ok da dc, of gen rnd] False by simp
    with 1 False show ?thesis
      unfolding cardInvariant_def claimSet_settings by simp
  qed
qed

lemma cardInvariant_single:
  assumes "distinct (map gen [0..<DECK_SIZE])"
  shows "cardInvariant (createSinglePlayerGame gen rnd now playerId playerName st)"
  using fresh_deal_distinct [OF assms, of rnd "int ACTIVE_CARD_COUNT"]
    fresh_deal_length [of gen rnd "int ACTIVE_CARD_COUNT"]
  by (simp add: cardInvariant_def createSinglePlayerGame_def totalCards_def split_beta)

lemma sum_claimed_reset:
  "sum_list (map (\<lambda>x. length (claimedCards
      ((\<lambda>(index, p). p\<lparr>claimedCards := [], selectedCardIds := [], score := 0,
                         playerNumber := int index + 1\<rparr>) x))) xs) = 0"
  by (induction xs) (simp_all add: split_beta)

lemma cardInvariant_multi:
  assumes "distinct (map gen [0..<DECK_SIZE])"
  shows "cardInvariant (createMultiplayerGame gen rnd now ps st)"
  using fresh_deal_distinct [OF assms, of rnd "int ACTIVE_CARD_COUNT"]
    fresh_deal_length [of gen rnd "int ACTIVE_CARD_COUNT"]
  by (simp add: cardInvariant_def createMultiplayerGame_def totalCards_def split_beta
      comp_def sum_claimed_reset)

lemma reachable_cardInvariant: "reachable s \<Longrightarrow> cardInvariant s"
proof (induction rule: reachable.induct)
  case (single gen rnd now playerId playerName st)
  then show ?case by (rule cardInvariant_single)
next
  case (multi gen rnd now ps st)
  then show ?case by (rule cardInvariant_multi)
next
  case (toggle s playerId cardId)
  then show ?case by (simp add: cardInvariant_toggle)
next
  case (clear s playerId)
  then show ?case by (simp add: cardInvariant_clear)
next
  case (timers s elapsedMs)
  then show ?case by (simp add: cardInvariant_def updateTimers_def totalCards_def split: if_splits)
next
  case (finish s reason)
  then show ?case by (simp add: cardInvariant_def endGame_def totalCards_def split: if_splits)
next
  case (claim s cardIds gen rnd playerId)
  then show ?case by (simp add: cardInvariant_claim)
qed

section \<open>Games from a fresh deck\<close>

subsection \<open>A freshly created game\<close>

lemma exDeal:
  "fst (dealCards (createShuffledDeck exGen exRnd) (int ACTIVE_CARD_COUNT)) =
     [\<lparr>card_id = ''card_0'', card_value = 1\<rparr>, \<lparr>card_id = ''card_1'', card_value = 2\<rparr>,
      \<lparr>card_id = ''card_2'', card_value = 3\<rparr>, \<lparr>card_id = ''card_k'', card_value = 60\<rparr>,
      \<lparr>card_id = ''card_j'', card_value = 59\<rparr>, \<lparr>card_id = ''card_i'', card_value = 58\<rparr>,
      \<lparr>card_id = ''card_h'', card_value = 57\<rparr>]"
  by code_simp

lemma exGen_distinct: "distinct (map exGen [0..<DECK_SIZE])"
  by code_simp

lemma exGame_reachable: "reachable (exGame st)"
  unfolding exGame_def using exGen_distinct by (rule reachable.single)

lemma exGame_activeCards:
  "activeCards (exGame st) =
     [\<lparr>card_id = ''card_0'', card_value = 1\<rparr>, \<lparr>card_id = ''card_1'', card_value = 2\<rparr>,
      \<lparr>card_id = ''card_2'', card_value = 3\<rparr>, \<lparr>card_id = ''card_k'', card_value = 60\<rparr>,
      \<lparr>card_id = ''card_j'', card_value = 59\<rparr>, \<lparr>card_id = ''card_i'', card_value = 58\<rparr>,
      \<lparr>card_id = ''card_h'', card_value = 57\<rparr>]"
  by (simp add: exGame_def createSinglePlayerGame_def split_beta exDeal)

lemma exGame_players:
  "players (exGame st) =
     [\<lparr>player_id = ''player1'', name = ''Ann'', playerNumber = 1, color = ''#3B82F6'',
       claimedCards = [], selectedCardIds = [], score = 0, isConnected = True,
       isReady = True\<rparr>]"
  by (simp add: exGame_def createSinglePlayerGame_def split_beta)

lemma exGame_settings: "settings (exGame st) = st"
  by (simp add: exGame_def createSinglePlayerGame_def split_beta)

lemma exGame_totalCards: "totalCards (exGame st) = 63"
proof -
  have "cardInvariant (exGame st)" using exGame_reachable by (rule reachable_cardInvariant)
  then have "length (deck (exGame st)) + length (activeCards (exGame st)) = 63"
    by (simp add: cardInvariant_def totalCards_def exGame_players split: if_splits)
  then show ?thesis by (simp add: totalCards_def exGame_players)
qed

lemma isValidSet_60_60_1_2_3: "isValidSet [60, 60, 1, 2, 3]"
  by (simp add: isValidSet_def MIN_SET_SIZE_def js_xor_def toInt32_def)

lemma exGame_claim_123: "claimSucceeds (exGame st) ''player1'' [''card_0'', ''card_1'', ''card_2'']"
  by (simp add: claimSucceeds_def claimedInstances_def List.map_filter_def exGame_activeCards
      exGame_players isValidSet_1_2_3)

lemma exGame_claim_dup:
  "claimSucceeds (exGame st) ''player1'' [''card_k'', ''card_k'', ''card_0'', ''card_1'', ''card_2'']"
  by (simp add: claimSucceeds_def claimedInstances_def List.map_filter_def exGame_activeCards
      exGame_players isValidSet_60_60_1_2_3)

lemma exGen'_fresh: "freshIds exGen' 3 (exGame st)"
proof -
  have "cardInvariant (exGame st)" using exGame_reachable by (rule reachable_cardInvariant)
  have ids: "set (map card_id (deck (exGame st) @ activeCards (exGame st)))
               = set (map exGen [0..<DECK_SIZE])"
  proof -
    have "mset (map card_id (deck (exGame st) @ activeCards (exGame st)))
            = mset (map exGen [0..<DECK_SIZE])"
      unfolding exGame_def createSinglePlayerGame_def
      by (simp only: split_beta Let_def GameState.simps dealCards_ids_mset
          createShuffledDeck_ids_mset)
    then show ?thesis by (rule mset_eq_setD)
  qed
  have "exGen' k \<noteq> exGen k'" for k k' by (simp add: exGen_def exGen'_def)
  then have "set (map exGen' [0..<3]) \<inter> set (map exGen [0..<DECK_SIZE]) = {}"
    by auto
  moreover have "distinct (map exGen' [0..<3])" by code_simp
  ultimately show ?thesis unfolding freshIds_def ids by simp
qed

text \<open>
  Claim C3 (conservation law), as amended. Starting from a freshly created game with
  unique card ids, after any sequence of transitions in which every claim names pairwise
  distinct card ids: in a finite-deck game \<open>|deck| + |activeCards| + \<Sigma>|claimedCards|\<close>
  is 63 at every point. With \<open>infiniteDeck\<close> enabled the total is not constant:
  \<open>|deck| + |activeCards|\<close> stays 63, because the claimed cards return to the deck under
  fresh ids, and they also stay in the claimer's pile, so every successful claim raises
  the total by the number of cards claimed.
\<close>
theorem card_conservation:
  assumes r: "reachable s"
  shows "(\<not> infiniteDeck (settings s) \<longrightarrow> totalCards s = 63)
       \<and> (infiniteDeck (settings s) \<longrightarrow> length (deck s) + length (activeCards s) = 63)
       \<and> (infiniteDeck (settings s) \<and> distinct cardIds \<and> claimSucceeds s playerId cardIds
            \<longrightarrow> totalCards (fst (claimSet gen rnd s playerId cardIds))
                  = totalCards s + length cardIds)"
proof -
  have inv: "cardInvariant s" using r by (rule reachable_cardInvariant)
  then have da: "distinct (map card_id (activeCards s))"
    by (simp add: cardInvariant_def)
  have "totalCards (fst (claimSet gen rnd s playerId cardIds)) = totalCards s + length cardIds"
    if "infiniteDeck (settings s)" "distinct cardIds" "claimSucceeds s playerId cardIds"
    using claimSet_totalCards [OF that(3) da that(2), of gen rnd] that(1) by simp
  then show ?thesis using inv by (auto simp: cardInvariant_def)
qed

theorem card_conservation_counterexample:
  "reachable (fst (claimSet exGen' exRnd (exGame (exSettings\<lparr>infiniteDeck := True\<rparr>))
                    ''player1'' [''card_0'', ''card_1'', ''card_2'']))
   \<and> totalCards (exGame (exSettings\<lparr>infiniteDeck := True\<rparr>)) = 63
   \<and> totalCards (fst (claimSet exGen' exRnd (exGame (exSettings\<lparr>infiniteDeck := True\<rparr>))
                    ''player1'' [''card_0'', ''card_1'', ''card_2''])) = 66"
proof -
  let ?s = "exGame (exSettings\<lparr>infiniteDeck := True\<rparr>)"
  let ?ids = "[''card_0'', ''card_1'', ''card_2'']"
  have inf: "infiniteDeck (settings ?s)" by (simp add: exGame_settings)
  have dc: "distinct ?ids" by simp
  have fresh: "infiniteDeck (settings ?s) \<longrightarrow> freshIds exGen' (length ?ids) ?s"
    using exGen'_fresh [of "exSettings\<lparr>infiniteDeck := True\<rparr>"]
    by (simp add: numeral_3_eq_3)
  have r1: "reachable (fst (claimSet exGen' exRnd ?s ''player1'' ?ids))"
    using exGame_reachable dc fresh by (rule reachable.claim)
  have da: "distinct (map card_id (activeCards ?s))"
    by (simp add: exGame_activeCards)
  have "totalCards (fst (claimSet exGen' exRnd ?s ''player1'' ?ids)) = totalCards ?s + length ?ids"
    using claimSet_totalCards [OF exGame_claim_123 da dc, of exGen' exRnd] inf by simp
  then show ?thesis using r1 by (simp add: exGame_totalCards)
qed

theorem card_conservation_witness:
  "reachable (exGame exSettings) \<and> totalCards (exGame exSettings) = 63
   \<and> reachable (fst (claimSet exGen' exRnd (exGame (exSettings\<lparr>infiniteDeck := True\<rparr>))
                    ''player1'' [''card_0'', ''card_1'', ''card_2'']))
   \<and> length (deck (fst (claimSet exGen' exRnd (exGame (exSettings\<lparr>infiniteDeck := True\<rparr>))
                    ''player1'' [''card_0'', ''card_1'', ''card_2''])))
     + length (activeCards (fst (claimSet exGen' exRnd (exGame (exSettings\<lparr>infiniteDeck := True\<rparr>))
                    ''player1'' [''card_0'', ''card_1'', ''card_2'']))) = 63"
proof -
  let ?s = "exGame (exSettings\<lparr>infiniteDeck := True\<rparr>)"
  let ?ids = "[''card_0'', ''card_1'', ''card_2'']"
  have fresh: "infiniteDeck (settings ?s) \<longrightarrow> freshIds exGen' (length ?ids) ?s"
    using exGen'_fresh [of "exSettings\<lparr>infiniteDeck := True\<rparr>"]
    by (simp add: numeral_3_eq_3)
  have r0: "reachable (exGame exSettings)" by (rule exGame_reachable)
  have r1: "reachable (fst (claimSet exGen' exRnd ?s ''player1'' ?ids))"
    using exGame_reachable _ fresh by (rule reachable.claim) simp
  have "totalCards (exGame exSettings) = 63"
    using card_conservation [OF r0] by (simp add: exGame_settings exSettings_def)
  moreover have "length (deck (fst (claimSet exGen' exRnd ?s ''player1'' ?ids)))
     + length (activeCards (fst (claimSet exGen' exRnd ?s ''player1'' ?ids))) = 63"
    using card_conservation [OF r1] by (simp add: claimSet_settings exGame_settings)
  ultimately show ?thesis using r0 r1 by simp
qed

text \<open>
  Claim C10 (duplicated card ids). \<open>claimSet\<close> does not require the ids to be distinct.
  In the freshly created game \<open>exGame exSettings\<close> the table holds the cards 1, 2, 3
  and 60, among others; claiming the ids of 60, 60, 1, 2, 3 succeeds, awards 5 points
  under \<open>cards\<close> scoring and appends the card 60 to the pile twice, while it was on the
  table once and is removed from it; the total number of cards rises from 63 to 64.
\<close>
theorem claimSet_accepts_duplicate_ids:
  "exGame exSettings = createSinglePlayerGame exGen exRnd 0 ''player1'' ''Ann'' exSettings
   \<and> map (\<lambda>c. (card_id c, card_value c)) (activeCards (exGame exSettings))
       = [(''card_0'', 1), (''card_1'', 2), (''card_2'', 3), (''card_k'', 60),
          (''card_j'', 59), (''card_i'', 58), (''card_h'', 57)]
   \<and> snd (claimSet exGen' exRnd (exGame exSettings) ''player1''
             [''card_k'', ''card_k'', ''card_0'', ''card_1'', ''card_2'']) = 5
   \<and> map card_id (claimedCards (players (fst (claimSet exGen' exRnd (exGame exSettings) ''player1''
             [''card_k'', ''card_k'', ''card_0'', ''card_1'', ''card_2''])) ! 0))
       = [''card_k'', ''card_k'', ''card_0'', ''card_1'', ''card_2'']
   \<and> length (filter (\<lambda>c. card_id c = ''card_k'') (activeCards (exGame exSettings))) = 1
   \<and> filter (\<lambda>c. card_id c = ''card_k'')
        (activeCards (fst (claimSet exGen' exRnd (exGame exSettings) ''player1''
             [''card_k'', ''card_k'', ''card_0'', ''card_1'', ''card_2'']))) = []
   \<and> totalCards (exGame exSettings) = 63
   \<and> totalCards (fst (claimSet exGen' exRnd (exGame exSettings) ''player1''
             [''card_k'', ''card_k'', ''card_0'', ''card_1'', ''card_2''])) = 64"
proof -
  let ?s = "exGame exSettings"
  let ?ids = "[''card_k'', ''card_k'', ''card_0'', ''card_1'', ''card_2'']"
  let ?s1 = "fst (claimSet exGen' exRnd ?s ''player1'' ?ids)"
  note ok = exGame_claim_dup [of exSettings]
  have idx: "findIndex (\<lambda>p. player_id p = ''player1'') (players ?s) = Some 0"
    by (simp add: exGame_players)
  have fin: "\<not> infiniteDeck (settings ?s)" "scoringMode (settings ?s) = Some Cards"
    by (simp_all add: exGame_settings exSettings_def)
  have pts: "snd (claimSet exGen' exRnd ?s ''player1'' ?ids) = 5"
    using ok fin by (simp add: claimSet_points)
  have ci: "map card_id (claimedInstances ?s ?ids) = ?ids"
    by (simp add: claimedInstances_def List.map_filter_def exGame_activeCards)
  have pile: "map card_id (claimedCards (players ?s1 ! 0)) = ?ids"
    by (simp add: claimSet_players [OF ok idx] exGame_players ci)
  have inv: "distinct (map card_id (deck ?s @ activeCards ?s))"
    using reachable_cardInvariant [OF exGame_reachable, of exSettings]
    by (simp add: cardInvariant_def)
  have "set ?ids \<subseteq> set (map card_id (activeCards ?s))"
    by (simp add: exGame_activeCards)
  with inv have dk: "set ?ids \<inter> set (map card_id (deck ?s)) = {}"
    by auto
  have off: "set ?ids \<inter> set (map card_id (activeCards ?s1)) = {}"
    using ok dk fin(1) by (intro claimSet_active_ids) simp_all
  then have "''card_k'' \<notin> card_id ` set (activeCards ?s1)"
    by simp
  then have "\<forall>c \<in> set (activeCards ?s1). card_id c \<noteq> ''card_k''"
    by force
  then have gone: "filter (\<lambda>c. card_id c = ''card_k'') (activeCards ?s1) = []"
    by (simp add: filter_empty_conv)
  have rem: "length (claimRemaining ?s ?ids) = 3"
    by (simp add: claimRemaining_def exGame_activeCards)
  have dt: "length (deck ?s1) + length (activeCards ?s1) = length (deck ?s) + 3"
    using claimSet_deck_table [OF ok, of exGen' exRnd] fin(1) rem by simp
  have t0: "totalCards ?s = 63" by (rule exGame_totalCards)
  then have "length (deck ?s) = 56"
    by (simp add: totalCards_def exGame_activeCards exGame_players)
  then have t1: "totalCards ?s1 = 64"
    unfolding totalCards_def
    using dt claimSet_sum_claimed [OF ok, of exGen' exRnd]
    by (simp add: exGame_players)
  have tbl: "map (\<lambda>c. (card_id c, card_value c)) (activeCards ?s)
       = [(''card_0'', 1), (''card_1'', 2), (''card_2'', 3), (''card_k'', 60),
          (''card_j'', 59), (''card_i'', 58), (''card_h'', 57)]"
    by (simp add: exGame_activeCards)
  have once: "length (filter (\<lambda>c. card_id c = ''card_k'') (activeCards ?s)) = 1"
    by (simp add: exGame_activeCards)
  show ?thesis
    using exGame_def [of exSettings] tbl pts pile once gone t0 t1 by simp
qed

end
